theory Spec2Isabelle
  imports Main "HOL-Library.Sublist" "HOL-Library.AList"
begin

section \<open>Configuration values and errors\<close>

text \<open>
  A parsed JSON/YAML document is a tree of mappings, sequences and scalars.  A Python
  \<^verbatim>\<open>dict\<close> keeps its keys unique and in insertion order, so a mapping is an
  association list; \<open>AList.update\<close> is \<^verbatim>\<open>d[k] = v\<close> (an existing key keeps
  its place, a new key goes to the end) and \<open>map_of\<close> is \<^verbatim>\<open>d.get(k)\<close>.
  Mapping keys are strings, as in every JSON document.  Floating-point numbers and the
  other scalars YAML knows are left out: the code below treats all scalars alike, except
  where it reads \<^verbatim>\<open>header.version\<close>.
\<close>

datatype cfgval =
    VNull
  | VBool bool
  | VInt int
  | VStr string
  | VList "cfgval list"
  | VMap "(string \<times> cfgval) list"

text \<open>
  The exceptions the modelled code can raise.  \<open>LoadConfigError\<close> and
  \<open>IncludeError\<close> are the two classes of \<^verbatim>\<open>includehandler.py\<close>
  (\<^verbatim>\<open>LoadConfigException\<close>, \<^verbatim>\<open>IncludeException\<close>); the others are
  Python's own.
\<close>

datatype error =
    LoadConfigError
  | IncludeError
  | FileNotFoundError
  | UnboundLocalError
  | KeyError
  | TypeError
  | AttributeError
  | ParseError

section \<open>The deep merger\<close>

text \<open>
  \<^verbatim>\<open>_internal_dict_merge(dest, upd)\<close>: both arguments must be mappings; \<open>dest\<close> is
  copied, and when the two key sets meet, every key of \<open>upd\<close> is either merged
  recursively (both values are mappings) or assigned; when they do not meet, every key
  of \<open>upd\<close> is assigned.  \<open>merge_keys\<close> is the loop over \<^verbatim>\<open>updkeys\<close>, with
  \<^verbatim>\<open>val = upd[key]\<close> taken from the items of \<open>upd\<close>.  The copy is an
  \<^verbatim>\<open>OrderedDict\<close>, so \<^verbatim>\<open>dest.get\<close> does not raise \<^verbatim>\<open>AttributeError\<close>, and
  the handler of the second loop repeats the loop it guards.
\<close>

fun internal_dict_merge :: "cfgval \<Rightarrow> cfgval \<Rightarrow> error + cfgval"
and merge_keys ::
  "(string \<times> cfgval) list \<Rightarrow> (string \<times> cfgval) list \<Rightarrow> error + (string \<times> cfgval) list"
where
  "internal_dict_merge (VMap dest) (VMap upd) =
     (if set (map fst dest) \<inter> set (map fst upd) \<noteq> {}
      then (case merge_keys dest upd of Inl e \<Rightarrow> Inl e | Inr d \<Rightarrow> Inr (VMap d))
      else Inr (VMap (fold (\<lambda>(k, v) d. AList.update k v d) upd dest)))"
| "internal_dict_merge dest upd = Inl IncludeError"
| "merge_keys dest [] = Inr dest"
| "merge_keys dest ((key, val) # rest) =
     (case (map_of dest key, val) of
        (Some (VMap dest_subkey), VMap u) \<Rightarrow>
          (case internal_dict_merge (VMap dest_subkey) (VMap u) of
             Inl e \<Rightarrow> Inl e
           | Inr ret \<Rightarrow> merge_keys (AList.update key ret dest) rest)
      | _ \<Rightarrow> merge_keys (AList.update key val dest) rest)"

text \<open>
  \<^verbatim>\<open>functools.reduce(_internal_dict_merge, bodies)\<close>: an empty sequence raises
  \<^verbatim>\<open>TypeError\<close>, a single body is returned as it is, otherwise the bodies are folded
  from the left.
\<close>

fun reduce_from :: "cfgval \<Rightarrow> cfgval list \<Rightarrow> error + cfgval" where
  "reduce_from acc [] = Inr acc"
| "reduce_from acc (upd # rest) =
     (case internal_dict_merge acc upd of
        Inl e \<Rightarrow> Inl e
      | Inr acc' \<Rightarrow> reduce_from acc' rest)"

fun reduce_merge :: "cfgval list \<Rightarrow> error + cfgval" where
  "reduce_merge [] = Inl TypeError"
| "reduce_merge (first # rest) = reduce_from first rest"

text \<open>Python dictionaries have unique keys, at every level of nesting.\<close>

fun wf_val :: "cfgval \<Rightarrow> bool" where
  "wf_val (VMap m) = (distinct (map fst m) \<and> list_all (\<lambda>p. wf_val (snd p)) m)"
| "wf_val (VList xs) = list_all wf_val xs"
| "wf_val v = True"


text \<open>\<^verbatim>\<open>isinstance(v, Mapping)\<close>.\<close>

fun is_mapping :: "cfgval \<Rightarrow> bool" where
  "is_mapping (VMap m) = True"
| "is_mapping v = False"

text \<open>
  The value a key of \<open>upd\<close> receives in one merge step: the recursive merge when the
  accumulator's value and the incoming value are both mappings, the incoming value
  otherwise.
\<close>

definition merged_value :: "cfgval option \<Rightarrow> cfgval \<Rightarrow> cfgval" where
  "merged_value old new =
     (case (old, new) of
        (Some (VMap d), VMap u) \<Rightarrow>
          (case internal_dict_merge (VMap d) (VMap u) of Inr ret \<Rightarrow> ret | Inl e \<Rightarrow> new)
      | _ \<Rightarrow> new)"

section \<open>Paths\<close>

text \<open>
  Paths are POSIX path strings.  The functions below follow \<^verbatim>\<open>posixpath\<close> and
  \<^verbatim>\<open>pathlib.PurePosixPath\<close> of the Python standard library.
\<close>

definition startswith :: "string \<Rightarrow> string \<Rightarrow> bool" where
  "startswith s p = prefix p s"

text \<open>\<^verbatim>\<open>s.split('/')\<close> and \<^verbatim>\<open>'/'.join(parts)\<close>.\<close>

fun split_sep :: "string \<Rightarrow> string list" where
  "split_sep [] = [[]]"
| "split_sep (c # cs) =
     (if c = CHR ''/'' then [] # split_sep cs
      else (case split_sep cs of [] \<Rightarrow> [[c]] | x # xs \<Rightarrow> (c # x) # xs))"

fun join_sep :: "string list \<Rightarrow> string" where
  "join_sep [] = []"
| "join_sep [x] = x"
| "join_sep (x # y # ys) = x @ ''/'' @ join_sep (y # ys)"

text \<open>\<^verbatim>\<open>os.path.join(a, b)\<close>.\<close>

definition os_path_join :: "string \<Rightarrow> string \<Rightarrow> string" where
  "os_path_join a b =
     (if startswith b ''/'' then b
      else if a = [] \<or> last a = CHR ''/'' then a @ b
      else a @ ''/'' @ b)"

text \<open>
  \<^verbatim>\<open>os.path.normpath\<close>: empty and \<^verbatim>\<open>.\<close> components are dropped, a
  \<^verbatim>\<open>..\<close> removes the component before it (it is kept at the start of a relative
  path and dropped at the root).
\<close>

fun norm_comps :: "bool \<Rightarrow> string list \<Rightarrow> string list \<Rightarrow> string list" where
  "norm_comps initial_slashes [] new_comps = new_comps"
| "norm_comps initial_slashes (cmp # comps) new_comps =
     (if cmp = [] \<or> cmp = ''.'' then norm_comps initial_slashes comps new_comps
      else if cmp \<noteq> ''..'' \<or> (\<not> initial_slashes \<and> new_comps = [])
                \<or> (new_comps \<noteq> [] \<and> last new_comps = ''..'')
      then norm_comps initial_slashes comps (new_comps @ [cmp])
      else if new_comps \<noteq> [] then norm_comps initial_slashes comps (butlast new_comps)
      else norm_comps initial_slashes comps new_comps)"

definition initial_slashes :: "string \<Rightarrow> nat" where
  "initial_slashes path =
     (if \<not> startswith path ''/'' then 0
      else if startswith path ''//'' \<and> \<not> startswith path ''///'' then 2
      else 1)"

definition os_path_normpath :: "string \<Rightarrow> string" where
  "os_path_normpath path =
     (if path = [] then ''.''
      else let n = initial_slashes path;
               p = replicate n CHR ''/'' @ join_sep (norm_comps (n \<noteq> 0) (split_sep path) [])
           in if p = [] then ''.'' else p)"

definition os_path_abspath :: "string \<Rightarrow> string \<Rightarrow> string" where
  "os_path_abspath cwd path =
     os_path_normpath (if startswith path ''/'' then path else os_path_join cwd path)"

text \<open>\<^verbatim>\<open>os.path.dirname\<close>: everything up to the last slash, trailing slashes removed
  unless nothing else is left.\<close>

definition os_path_dirname :: "string \<Rightarrow> string" where
  "os_path_dirname p =
     (let head = rev (dropWhile (\<lambda>c. c \<noteq> CHR ''/'') (rev p))
      in if head \<noteq> [] \<and> head \<noteq> replicate (length head) CHR ''/''
         then rev (dropWhile (\<lambda>c. c = CHR ''/'') (rev head))
         else head)"

text \<open>
  The extension as \<^verbatim>\<open>os.path.splitext\<close> returns it: from the last dot of the last
  component, when some character before that dot in the component is not a dot.
\<close>

definition splitext_ext :: "string \<Rightarrow> string" where
  "splitext_ext p =
     (let name = rev (takeWhile (\<lambda>c. c \<noteq> CHR ''/'') (rev p));
          e = rev (takeWhile (\<lambda>c. c \<noteq> CHR ''.'') (rev name));
          front = take (length name - length e - 1) name
      in if CHR ''.'' \<in> set name \<and> list_ex (\<lambda>c. c \<noteq> CHR ''.'') front
         then CHR ''.'' # e else [])"

text \<open>
  \<^verbatim>\<open>pathlib\<close>: a path is a root and its parts; \<^verbatim>\<open>suffix\<close> is the text from the
  last dot of the name when that dot is neither its first nor its last character, and
  \<^verbatim>\<open>stem\<close> is the name without it.
\<close>

definition path_root :: "string \<Rightarrow> string" where
  "path_root s = replicate (initial_slashes s) CHR ''/''"

definition path_parts :: "string \<Rightarrow> string list" where
  "path_parts s = filter (\<lambda>c. c \<noteq> [] \<and> c \<noteq> ''.'') (split_sep s)"

definition path_str :: "string \<Rightarrow> string list \<Rightarrow> string" where
  "path_str root parts = (if root = [] \<and> parts = [] then ''.'' else root @ join_sep parts)"

definition path_suffix :: "string \<Rightarrow> string" where
  "path_suffix name =
     (let e = rev (takeWhile (\<lambda>c. c \<noteq> CHR ''.'') (rev name))
      in if CHR ''.'' \<in> set name \<and> e \<noteq> [] \<and> length e + 1 < length name
         then CHR ''.'' # e else [])"

definition path_stem :: "string \<Rightarrow> string" where
  "path_stem name = take (length name - length (path_suffix name)) name"

text \<open>
  \<^verbatim>\<open>IncludeHandler.get_lockfile(kasfile)\<close>:
  \<^verbatim>\<open>file.parent / (file.stem + '.lock' + file.suffix)\<close>, as a string.  The include
  handler passes the name of a file that \<^verbatim>\<open>ConfigFile\<close> has accepted, which is
  not empty, so \<^verbatim>\<open>kasfile or self.top_files[0]\<close> is \<^verbatim>\<open>kasfile\<close>.
\<close>

definition get_lockfile :: "string \<Rightarrow> string" where
  "get_lockfile kasfile =
     (let parts = path_parts kasfile;
          name = (if parts = [] then [] else last parts)
      in path_str (path_root kasfile)
           (butlast parts @ [path_stem name @ ''.lock'' @ path_suffix name]))"

section \<open>Loading a configuration file\<close>

text \<open>
  The world around the resolver.  \<open>files\<close> is what \<^verbatim>\<open>open\<close> finds at a path:
  nothing, bytes the parser rejects, or a parsed value.  The schema, the two version
  constants of the package and Python's \<^verbatim>\<open>int\<close> on a string (\<open>None\<close> for
  \<^verbatim>\<open>ValueError\<close>) are parameters.
\<close>

datatype file_content = Parsed cfgval | Unparsable

record env =
  files :: "string \<Rightarrow> file_content option"
  cwd :: string
  schema_ok :: "cfgval \<Rightarrow> bool"
  compatible_file_version :: int
  file_version :: int
  int_of_str :: "string \<Rightarrow> int option"

definition path_exists :: "env \<Rightarrow> string \<Rightarrow> bool" where
  "path_exists e p = (files e p \<noteq> None)"

record config_file =
  filename :: string
  config :: cfgval
  src_dir :: cfgval
  is_lockfile :: bool
  is_external :: bool

text \<open>\<^verbatim>\<open>v[key]\<close> for a string key, and \<^verbatim>\<open>v.get(key, None)\<close> on a mapping
  (\<open>VNull\<close> is \<^verbatim>\<open>None\<close>).\<close>

fun py_getitem :: "cfgval \<Rightarrow> string \<Rightarrow> error + cfgval" where
  "py_getitem (VMap m) key = (case map_of m key of None \<Rightarrow> Inl KeyError | Some v \<Rightarrow> Inr v)"
| "py_getitem v key = Inl TypeError"

definition dict_get :: "(string \<times> cfgval) list \<Rightarrow> string \<Rightarrow> cfgval" where
  "dict_get m key = (case map_of m key of None \<Rightarrow> VNull | Some v \<Rightarrow> v)"

text \<open>
  \<^verbatim>\<open>int(self.config['header']['version'])\<close> with its \<^verbatim>\<open>except ValueError\<close>:
  a string that is not a number counts as version 1.
\<close>

fun py_int :: "env \<Rightarrow> cfgval \<Rightarrow> error + int" where
  "py_int e (VInt i) = Inr i"
| "py_int e (VBool b) = Inr (if b then 1 else 0)"
| "py_int e (VStr s) = (case int_of_str e s of None \<Rightarrow> Inr 1 | Some i \<Rightarrow> Inr i)"
| "py_int e v = Inl TypeError"

definition version_value :: "env \<Rightarrow> cfgval \<Rightarrow> error + int" where
  "version_value e cfg =
     (case py_getitem cfg ''header'' of
        Inl err \<Rightarrow> Inl err
      | Inr header \<Rightarrow>
          (case py_getitem header ''version'' of
             Inl err \<Rightarrow> Inl err
           | Inr v \<Rightarrow> py_int e v))"

text \<open>
  \<^verbatim>\<open>ConfigFile(filename, is_lockfile, is_external)\<close>, that is
  \<^verbatim>\<open>_load_config\<close>: the extension is checked before the file is opened.
\<close>

definition load_config :: "env \<Rightarrow> string \<Rightarrow> bool \<Rightarrow> bool \<Rightarrow> error + config_file" where
  "load_config e fname lockf ext =
     (let x = splitext_ext fname in
      if x = ''.json'' \<or> x = ''.yml'' \<or> x = ''.yaml'' then
        (case files e fname of
           None \<Rightarrow> Inl FileNotFoundError
         | Some Unparsable \<Rightarrow> Inl ParseError
         | Some (Parsed cfg) \<Rightarrow>
             if \<not> schema_ok e cfg then Inl LoadConfigError
             else (case version_value e cfg of
                     Inl err \<Rightarrow> Inl err
                   | Inr v \<Rightarrow>
                       if v < compatible_file_version e \<or> v > file_version e
                       then Inl LoadConfigError
                       else (case cfg of
                               VMap m \<Rightarrow>
                                 Inr \<lparr>filename = fname, config = cfg,
                                      src_dir = dict_get m ''_source_dir'',
                                      is_lockfile = lockf, is_external = ext\<rparr>
                             | _ \<Rightarrow> Inl AttributeError)))
      else Inl LoadConfigError)"


section \<open>The include handler\<close>

text \<open>Truth value of a Python object, as \<^verbatim>\<open>if current_config.src_dir:\<close> takes it.\<close>

fun truthy :: "cfgval \<Rightarrow> bool" where
  "truthy VNull = False"
| "truthy (VBool b) = b"
| "truthy (VInt i) = (i \<noteq> 0)"
| "truthy (VStr s) = (s \<noteq> [])"
| "truthy (VList xs) = (xs \<noteq> [])"
| "truthy (VMap m) = (m \<noteq> [])"

text \<open>
  What a \<^verbatim>\<open>for\<close> loop iterates over: the items of a list, the characters of a
  string, the keys of a mapping; anything else is not iterable.
\<close>

fun py_iter :: "cfgval \<Rightarrow> error + cfgval list" where
  "py_iter (VList xs) = Inr xs"
| "py_iter (VStr s) = Inr (map (\<lambda>c. VStr [c]) s)"
| "py_iter (VMap m) = Inr (map (\<lambda>p. VStr (fst p)) m)"
| "py_iter v = Inl TypeError"

text \<open>
  Equality of hashable values as Python's \<^verbatim>\<open>==\<close> has it: \<^verbatim>\<open>True == 1\<close> and
  \<^verbatim>\<open>False == 0\<close>.  \<open>append_new\<close> is the loop
  \<^verbatim>\<open>for repo in reps: if repo not in missing_repos: missing_repos.append(repo)\<close>,
  and \<^verbatim>\<open>list(OrderedDict.fromkeys(xs))\<close> is that loop from the empty list.
\<close>

fun key_norm :: "cfgval \<Rightarrow> cfgval" where
  "key_norm (VBool b) = VInt (if b then 1 else 0)"
| "key_norm v = v"

definition py_in :: "cfgval \<Rightarrow> cfgval list \<Rightarrow> bool" where
  "py_in x xs = (key_norm x \<in> set (map key_norm xs))"

fun append_new :: "cfgval list \<Rightarrow> cfgval list \<Rightarrow> cfgval list" where
  "append_new missing [] = missing"
| "append_new missing (repo # reps) =
     append_new (if py_in repo missing then missing else missing @ [repo]) reps"

definition ordered_dedup :: "cfgval list \<Rightarrow> cfgval list" where
  "ordered_dedup xs = append_new [] xs"

text \<open>
  \<^verbatim>\<open>repos.get(includerepo, None)\<close>: \<open>repos\<close> maps repository names to paths;
  a list or a mapping is not hashable.
\<close>

fun repos_get :: "(string \<rightharpoonup> string) \<Rightarrow> cfgval \<Rightarrow> error + string option" where
  "repos_get repos (VStr s) = Inr (repos s)"
| "repos_get repos (VList xs) = Inl TypeError"
| "repos_get repos (VMap m) = Inl TypeError"
| "repos_get repos v = Inr None"

text \<open>
  The file a local include names: the string itself when it starts with
  \<^verbatim>\<open>os.path.pathsep\<close> (a colon), otherwise the path under \<open>repo_path\<close>, or,
  when that does not exist and the path beside the current file does, the latter.
\<close>

definition local_include_file :: "env \<Rightarrow> string \<Rightarrow> cfgval \<Rightarrow> string \<Rightarrow> error + string" where
  "local_include_file e cur repo_path incl =
     (if startswith incl '':'' then Inr incl
      else (case repo_path of
              VStr rp \<Rightarrow>
                (let includefile = os_path_abspath (cwd e) (os_path_join rp incl) in
                 if \<not> path_exists e includefile then
                   (let alternate =
                          os_path_abspath (cwd e) (os_path_join (os_path_dirname cur) incl)
                    in if path_exists e alternate then Inr alternate else Inr includefile)
                 else Inr includefile)
            | _ \<Rightarrow> Inl TypeError))"

text \<open>
  \<^verbatim>\<open>header = current_config.config.get('header', {})\<close> and the sequence the loop
  \<^verbatim>\<open>for include in header.get('includes', [])\<close> runs over, after the check that
  the body is a mapping.
\<close>

definition header_includes :: "cfgval \<Rightarrow> error + cfgval list" where
  "header_includes cfg =
     (case cfg of
        VMap m \<Rightarrow>
          (case (case map_of m ''header'' of None \<Rightarrow> VMap [] | Some h \<Rightarrow> h) of
             VMap hm \<Rightarrow> py_iter (case map_of hm ''includes'' of None \<Rightarrow> VList [] | Some i \<Rightarrow> i)
           | _ \<Rightarrow> Inl AttributeError)
      | _ \<Rightarrow> Inl IncludeError)"

text \<open>
  A call of \<^verbatim>\<open>_internal_include_handler\<close> returns the documents, the missing
  repositories and the handler's \<^verbatim>\<open>top_repo_path\<close>, which it may have
  reassigned.  The recursion has no bound in the source (a file that includes itself
  recurses until Python gives up), so the model takes fuel: \<open>None\<close> is "no result
  within this depth".
\<close>

type_synonym resolved = "config_file list \<times> cfgval list \<times> cfgval"
type_synonym outcome = "(error + resolved) option"

text \<open>
  The loop over the includes.  \<open>rec\<close> is the recursive call, with arguments
  \<open>top_repo_path\<close>, \<open>filename\<close>, \<open>repo_path\<close>, \<open>is_lockfile\<close>, \<open>is_external\<close>.
  An include that is neither a string nor a mapping is passed over.
\<close>

fun include_loop ::
  "(cfgval \<Rightarrow> string \<Rightarrow> cfgval \<Rightarrow> bool \<Rightarrow> bool \<Rightarrow> outcome) \<Rightarrow> env \<Rightarrow> (string \<rightharpoonup> string) \<Rightarrow>
   string \<Rightarrow> cfgval \<Rightarrow> bool \<Rightarrow> cfgval list \<Rightarrow> resolved \<Rightarrow> outcome" where
  "include_loop rec e repos cur repo_path ext [] acc = Some (Inr acc)"
| "include_loop rec e repos cur repo_path ext (VStr incl # rest) (configs, missing, trp) =
     (case local_include_file e cur repo_path incl of
        Inl err \<Rightarrow> Some (Inl err)
      | Inr includefile \<Rightarrow>
          (case rec trp includefile repo_path False ext of
             None \<Rightarrow> None
           | Some (Inl err) \<Rightarrow> Some (Inl err)
           | Some (Inr (cfg, rep, trp')) \<Rightarrow>
               include_loop rec e repos cur repo_path ext rest
                 (configs @ cfg, missing @ rep, trp')))"
| "include_loop rec e repos cur repo_path ext (VMap incl # rest) (configs, missing, trp) =
     (let includerepo = dict_get incl ''repo'' in
      case repos_get repos includerepo of
        Inl err \<Rightarrow> Some (Inl err)
      | Inr (Some includedir) \<Rightarrow>
          (case map_of incl ''file'' of
             None \<Rightarrow> Some (Inl IncludeError)
           | Some includefile \<Rightarrow>
               (let abs_includedir = os_path_abspath (cwd e) includedir in
                case includefile of
                  VStr f \<Rightarrow>
                    (case rec trp (os_path_join abs_includedir f) (VStr abs_includedir)
                            False True of
                       None \<Rightarrow> None
                     | Some (Inl err) \<Rightarrow> Some (Inl err)
                     | Some (Inr (cfg, rep, trp')) \<Rightarrow>
                         include_loop rec e repos cur repo_path ext rest
                           (configs @ cfg, missing @ rep, trp'))
                | _ \<Rightarrow> Some (Inl TypeError)))
      | Inr None \<Rightarrow>
          include_loop rec e repos cur repo_path ext rest
            (configs, missing @ [includerepo], trp))"
| "include_loop rec e repos cur repo_path ext (other # rest) acc =
     include_loop rec e repos cur repo_path ext rest acc"

text \<open>
  \<^verbatim>\<open>_internal_include_handler(filename, repo_path, is_lockfile, is_external)\<close>.
  The \<^verbatim>\<open>try\<close> block loads the file, visits its lock sibling when locking is on
  and the sibling exists, and takes over a source directory override.  Its
  \<^verbatim>\<open>except FileNotFoundError\<close> clause reads \<^verbatim>\<open>current_config.filename\<close>:
  when \<^verbatim>\<open>ConfigFile\<close> itself raised, \<^verbatim>\<open>current_config\<close> was never bound
  and the clause raises \<^verbatim>\<open>UnboundLocalError\<close>; when the nested call raised,
  it raises \<^verbatim>\<open>LoadConfigException\<close>.
\<close>

primrec internal_include_handler ::
  "nat \<Rightarrow> env \<Rightarrow> bool \<Rightarrow> (string \<rightharpoonup> string) \<Rightarrow>
   cfgval \<Rightarrow> string \<Rightarrow> cfgval \<Rightarrow> bool \<Rightarrow> bool \<Rightarrow> outcome" where
  "internal_include_handler 0 e use_lock repos trp fname repo_path lockf ext = None"
| "internal_include_handler (Suc n) e use_lock repos trp fname repo_path lockf ext =
     (case load_config e fname lockf ext of
        Inl err \<Rightarrow> Some (Inl (if err = FileNotFoundError then UnboundLocalError else err))
      | Inr current_config \<Rightarrow>
          (case (if use_lock \<and> path_exists e (get_lockfile fname)
                 then internal_include_handler n e use_lock repos trp
                        (get_lockfile fname) repo_path True ext
                 else Some (Inr ([], [], trp))) of
             None \<Rightarrow> None
           | Some (Inl err) \<Rightarrow>
               Some (Inl (if err = FileNotFoundError then LoadConfigError else err))
           | Some (Inr (configs, missing_repos, trp1)) \<Rightarrow>
               (let trp2 = (if truthy (src_dir current_config)
                            then src_dir current_config else trp1);
                    repo_path2 = (if truthy (src_dir current_config)
                                  then src_dir current_config else repo_path)
                in case header_includes (config current_config) of
                     Inl err \<Rightarrow> Some (Inl err)
                   | Inr includes \<Rightarrow>
                       (case include_loop (internal_include_handler n e use_lock repos)
                               e repos fname repo_path2 ext includes
                               (configs, missing_repos, trp2) of
                          None \<Rightarrow> None
                        | Some (Inl err) \<Rightarrow> Some (Inl err)
                        | Some (Inr (configs', missing', trp')) \<Rightarrow>
                            Some (Inr (configs' @ [current_config],
                                       ordered_dedup missing', trp'))))))"

text \<open>
  The handler object and the loop of \<^verbatim>\<open>get_config\<close> over its top files; each
  top file is resolved from the \<^verbatim>\<open>top_repo_path\<close> the handler has at that
  moment.  \<open>resolve\<close> is \<^verbatim>\<open>get_config\<close> up to the merge: the ordered documents
  and the missing repositories.
\<close>

record handler =
  top_files :: "string list"
  top_repo_path :: cfgval
  use_lock :: bool

fun top_files_loop ::
  "nat \<Rightarrow> env \<Rightarrow> bool \<Rightarrow> (string \<rightharpoonup> string) \<Rightarrow> string list \<Rightarrow> resolved \<Rightarrow> outcome" where
  "top_files_loop n e ul repos [] acc = Some (Inr acc)"
| "top_files_loop n e ul repos (configfile # rest) (configs, missing_repos, trp) =
     (case internal_include_handler n e ul repos trp configfile trp False False of
        None \<Rightarrow> None
      | Some (Inl err) \<Rightarrow> Some (Inl err)
      | Some (Inr (cfgs, reps, trp')) \<Rightarrow>
          top_files_loop n e ul repos rest
            (configs @ cfgs, append_new missing_repos reps, trp'))"

definition resolve :: "nat \<Rightarrow> env \<Rightarrow> handler \<Rightarrow> (string \<rightharpoonup> string) \<Rightarrow> outcome" where
  "resolve n e h repos =
     top_files_loop n e (use_lock h) repos (top_files h) ([], [], top_repo_path h)"

text \<open>
  The last statement of \<^verbatim>\<open>get_config\<close>:
  \<^verbatim>\<open>functools.reduce(_internal_dict_merge, map(lambda x: x.config, configs))\<close>.
\<close>

definition merge_documents :: "config_file list \<Rightarrow> error + cfgval" where
  "merge_documents configs = reduce_merge (map config configs)"

text \<open>\<^verbatim>\<open>get_config(repos)\<close>: the merged configuration and the missing repositories.\<close>

definition get_config ::
  "nat \<Rightarrow> env \<Rightarrow> handler \<Rightarrow> (string \<rightharpoonup> string) \<Rightarrow> (error + cfgval \<times> cfgval list) option" where
  "get_config n e h repos =
     (case resolve n e h repos of
        None \<Rightarrow> None
      | Some (Inl err) \<Rightarrow> Some (Inl err)
      | Some (Inr (configs, missing_repos, trp)) \<Rightarrow>
          (case merge_documents configs of
             Inl err \<Rightarrow> Some (Inl err)
           | Inr cfg \<Rightarrow> Some (Inr (cfg, missing_repos))))"


section \<open>Reading the resolver's result\<close>

text \<open>
  The file, repository root and external flag with which the loop visits an include, or
  \<open>None\<close> for an include it does not visit (an unknown repository, or an entry that
  is neither a string nor a mapping).
\<close>

fun include_target ::
  "env \<Rightarrow> (string \<rightharpoonup> string) \<Rightarrow> string \<Rightarrow> cfgval \<Rightarrow> bool \<Rightarrow> cfgval \<Rightarrow> (string \<times> cfgval \<times> bool) option" where
  "include_target e repos cur repo_path ext (VStr incl) =
     (case local_include_file e cur repo_path incl of
        Inl err \<Rightarrow> None
      | Inr includefile \<Rightarrow> Some (includefile, repo_path, ext))"
| "include_target e repos cur repo_path ext (VMap incl) =
     (case repos_get repos (dict_get incl ''repo'') of
        Inr (Some includedir) \<Rightarrow>
          (case map_of incl ''file'' of
             Some (VStr f) \<Rightarrow>
               Some (os_path_join (os_path_abspath (cwd e) includedir) f,
                     VStr (os_path_abspath (cwd e) includedir), True)
           | _ \<Rightarrow> None)
      | _ \<Rightarrow> None)"
| "include_target e repos cur repo_path ext other = None"

text \<open>
  The documents an include contributes: none when it is not visited, otherwise the
  documents some successful recursive call on its target returned.
\<close>

definition block_of ::
  "(cfgval \<Rightarrow> string \<Rightarrow> cfgval \<Rightarrow> bool \<Rightarrow> bool \<Rightarrow> outcome) \<Rightarrow> (string \<times> cfgval \<times> bool) option \<Rightarrow>
   config_file list \<Rightarrow> bool" where
  "block_of rec target block =
     (case target of
        None \<Rightarrow> block = []
      | Some (f, rp, ext) \<Rightarrow> (\<exists>trp missing trp'. rec trp f rp False ext = Some (Inr (block, missing, trp'))))"

section \<open>The missing repositories, as the specification describes them\<close>

text \<open>
  The specification calls the missing-repos list an ordered set: first-seen order,
  deduplicated.  \<open>first_seen\<close> keeps the first occurrence of every key of a sequence.
\<close>

primrec first_seen :: "cfgval list \<Rightarrow> cfgval list" where
  "first_seen [] = []"
| "first_seen (x # xs) = x # filter (\<lambda>y. key_norm y \<noteq> key_norm x) (first_seen xs)"

text \<open>
  The sequence to which this is applied: every reference to a repository that is not in
  \<open>repos\<close>, in the order in which the traversal of the source meets it, repetitions
  included.  \<open>unresolved_references\<close> is the traversal of
  \<open>internal_include_handler\<close> without the removal of duplicates at the end of a
  visit, and \<open>references_loop\<close> the loop over the top files with plain concatenation.
\<close>

primrec unresolved_references ::
  "nat \<Rightarrow> env \<Rightarrow> bool \<Rightarrow> (string \<rightharpoonup> string) \<Rightarrow>
   cfgval \<Rightarrow> string \<Rightarrow> cfgval \<Rightarrow> bool \<Rightarrow> bool \<Rightarrow> outcome" where
  "unresolved_references 0 e ul repos trp fname repo_path lockf ext = None"
| "unresolved_references (Suc n) e ul repos trp fname repo_path lockf ext =
     (case load_config e fname lockf ext of
        Inl err \<Rightarrow> Some (Inl (if err = FileNotFoundError then UnboundLocalError else err))
      | Inr current_config \<Rightarrow>
          (case (if ul \<and> path_exists e (get_lockfile fname)
                 then unresolved_references n e ul repos trp
                        (get_lockfile fname) repo_path True ext
                 else Some (Inr ([], [], trp))) of
             None \<Rightarrow> None
           | Some (Inl err) \<Rightarrow>
               Some (Inl (if err = FileNotFoundError then LoadConfigError else err))
           | Some (Inr (configs, refs, trp1)) \<Rightarrow>
               (let trp2 = (if truthy (src_dir current_config)
                            then src_dir current_config else trp1);
                    repo_path2 = (if truthy (src_dir current_config)
                                  then src_dir current_config else repo_path)
                in case header_includes (config current_config) of
                     Inl err \<Rightarrow> Some (Inl err)
                   | Inr includes \<Rightarrow>
                       (case include_loop (unresolved_references n e ul repos)
                               e repos fname repo_path2 ext includes
                               (configs, refs, trp2) of
                          None \<Rightarrow> None
                        | Some (Inl err) \<Rightarrow> Some (Inl err)
                        | Some (Inr (configs', refs', trp')) \<Rightarrow>
                            Some (Inr (configs' @ [current_config], refs', trp'))))))"

fun references_loop ::
  "nat \<Rightarrow> env \<Rightarrow> bool \<Rightarrow> (string \<rightharpoonup> string) \<Rightarrow> string list \<Rightarrow> resolved \<Rightarrow> outcome" where
  "references_loop n e ul repos [] acc = Some (Inr acc)"
| "references_loop n e ul repos (configfile # rest) (configs, refs, trp) =
     (case unresolved_references n e ul repos trp configfile trp False False of
        None \<Rightarrow> None
      | Some (Inl err) \<Rightarrow> Some (Inl err)
      | Some (Inr (cfgs, reps, trp')) \<Rightarrow>
          references_loop n e ul repos rest (configs @ cfgs, refs @ reps, trp'))"

definition resolve_references :: "nat \<Rightarrow> env \<Rightarrow> handler \<Rightarrow> (string \<rightharpoonup> string) \<Rightarrow> outcome" where
  "resolve_references n e h repos =
     references_loop n e (use_lock h) repos (top_files h) ([], [], top_repo_path h)"

text \<open>Two outcomes that agree, up to a relation between their lists of repositories.\<close>

fun same_up_to ::
  "(cfgval list \<Rightarrow> cfgval list \<Rightarrow> bool) \<Rightarrow> outcome \<Rightarrow> outcome \<Rightarrow> bool" where
  "same_up_to R None None = True"
| "same_up_to R (Some (Inl a)) (Some (Inl b)) = (a = b)"
| "same_up_to R (Some (Inr (c1, m1, t1))) (Some (Inr (c2, m2, t2))) = (c1 = c2 \<and> t1 = t2 \<and> R m1 m2)"
| "same_up_to R x y = False"

abbreviation (input) same_seen :: "cfgval list \<Rightarrow> cfgval list \<Rightarrow> bool" where
  "same_seen a b \<equiv> first_seen a = first_seen b"

section \<open>The configuration schema\<close>

text \<open>
  Modelled from the spec: \<^verbatim>\<open>CONFIGSCHEMA\<close>, the schema against which
  \<^verbatim>\<open>ConfigFile\<close> validates; it is a file of the package that is not among the
  sources.  The model has of it what the specification's data model and interfaces
  state: a document is a mapping; its \<^verbatim>\<open>header\<close> is a mapping with a
  \<^verbatim>\<open>version\<close> (an integer, or the string \<^verbatim>\<open>0.10\<close> that the comment in
  \<^verbatim>\<open>_load_config\<close> says the schema admits) and possibly a list
  \<^verbatim>\<open>includes\<close>; an include reference is a path string, or a structure with a
  \<^verbatim>\<open>repo\<close> key and a \<^verbatim>\<open>file\<close> path.
\<close>

fun include_reference_ok :: "cfgval \<Rightarrow> bool" where
  "include_reference_ok (VStr s) = True"
| "include_reference_ok (VMap m) =
     (case (map_of m ''repo'', map_of m ''file'') of
        (Some (VStr r), Some (VStr f)) \<Rightarrow> True
      | _ \<Rightarrow> False)"
| "include_reference_ok v = False"

text \<open>
  Modelled from the spec: the part of \<^verbatim>\<open>CONFIGSCHEMA\<close> that concerns the header
  of a document (the schema file is not among the sources).
\<close>

definition config_schema :: "cfgval \<Rightarrow> bool" where
  "config_schema cfg =
     (case cfg of
        VMap m \<Rightarrow>
          (case map_of m ''header'' of
             Some (VMap hm) \<Rightarrow>
               (case map_of hm ''version'' of
                  Some (VInt v) \<Rightarrow> True
                | Some (VStr s) \<Rightarrow> s = ''0.10''
                | _ \<Rightarrow> False)
               \<and> (case map_of hm ''includes'' of
                    None \<Rightarrow> True
                  | Some (VList incs) \<Rightarrow> list_all include_reference_ok incs
                  | Some other \<Rightarrow> False)
           | _ \<Rightarrow> False)
      | _ \<Rightarrow> False)"

section \<open>An example project\<close>

text \<open>
  A project in \<^verbatim>\<open>/w\<close>: \<^verbatim>\<open>a.yml\<close> includes the local \<^verbatim>\<open>b.yml\<close> and
  \<^verbatim>\<open>c.yml\<close> of repository \<^verbatim>\<open>x\<close>; \<^verbatim>\<open>l.yml\<close> has a lock file that has a
  lock file of its own; \<^verbatim>\<open>n.yml\<close> has a cross-repository include without a
  \<^verbatim>\<open>file\<close> key, which the schema does not admit; \<^verbatim>\<open>m.yml\<close> and its include \<^verbatim>\<open>m2.yml\<close> refer to the
  repositories \<^verbatim>\<open>x\<close>, \<^verbatim>\<open>y\<close> and \<^verbatim>\<open>z\<close> several times.
\<close>

definition kas_doc :: "cfgval list \<Rightarrow> cfgval" where
  "kas_doc incs = VMap [(''header'', VMap [(''version'', VInt 14), (''includes'', VList incs)])]"

definition project_files :: "(string \<times> file_content) list" where
  "project_files =
     [(''/w/a.yml'', Parsed (kas_doc [VStr ''b.yml'',
                                      VMap [(''repo'', VStr ''x''), (''file'', VStr ''c.yml'')]])),
      (''/w/b.yml'', Parsed (kas_doc [])),
      (''/x/c.yml'', Parsed (kas_doc [])),
      (''/w/l.yml'', Parsed (kas_doc [])),
      (''/w/l.lock.yml'', Parsed (kas_doc [])),
      (''/w/l.lock.lock.yml'', Parsed (kas_doc [])),
      (''/w/n.yml'', Parsed (kas_doc [VMap [(''repo'', VStr ''x'')]])),
      (''/w/m.yml'', Parsed (kas_doc [VMap [(''repo'', VStr ''y''), (''file'', VStr ''q.yml'')],
                                      VStr ''m2.yml'',
                                      VMap [(''repo'', VStr ''x''), (''file'', VStr ''c.yml'')],
                                      VMap [(''repo'', VStr ''y''), (''file'', VStr ''r.yml'')]])),
      (''/w/m2.yml'', Parsed (kas_doc [VMap [(''repo'', VStr ''x''), (''file'', VStr ''c.yml'')],
                                       VMap [(''repo'', VStr ''z''), (''file'', VStr ''s.yml'')]]))]"

definition project_env :: env where
  "project_env = \<lparr>files = map_of project_files, cwd = ''/w'', schema_ok = config_schema,
     compatible_file_version = 1, file_version = 14, int_of_str = (\<lambda>s. None)\<rparr>"

definition project_handler :: "string list \<Rightarrow> handler" where
  "project_handler tops = \<lparr>top_files = tops, top_repo_path = VStr ''/w'', use_lock = True\<rparr>"

definition loaded :: "string \<Rightarrow> cfgval list \<Rightarrow> bool \<Rightarrow> bool \<Rightarrow> config_file" where
  "loaded fname incs lockf ext =
     \<lparr>filename = fname, config = kas_doc incs, src_dir = VNull, is_lockfile = lockf, is_external = ext\<rparr>"


section \<open>The lock plugin\<close>

text \<open>
  What \<^verbatim>\<open>lock.py\<close> reads of a repository: its name, its checkout path, the
  revision it is at, its pinned commit (none for a floating repository) and whether kas
  leaves it alone.  \<open>rev_val\<close> is the revision as the value written into a lock file.
\<close>

record repo =
  name :: string
  path :: string
  revision :: "string option"
  commit :: "string option"
  operations_disabled :: bool

definition rev_val :: "string option \<Rightarrow> cfgval" where
  "rev_val rv = (case rv of None \<Rightarrow> VNull | Some s \<Rightarrow> VStr s)"

text \<open>
  What a pass over a lock file leaves behind besides the data: the calls of
  \<^verbatim>\<open>logging.info\<close> and \<^verbatim>\<open>logging.warning\<close>, and the call of
  \<^verbatim>\<open>Dump.dump_config\<close> with the configuration, the file name and the format.
\<close>

datatype log_event =
    InfoUpToDate string "string option"
  | InfoUpdating string cfgval "string option"
  | WarnRemoteLock string string
  | InfoUpdatingLockfile string
  | DumpConfig cfgval string string

text \<open>
  \<^verbatim>\<open>_path_is_relative_to(path, prefix)\<close>: \<^verbatim>\<open>path.relative_to(prefix)\<close> does not
  raise.  \<^verbatim>\<open>relative_to\<close> raises \<^verbatim>\<open>ValueError\<close> unless both paths have the same
  root (both are relative, or both are absolute) and the parts of \<open>prefix\<close> begin the
  parts of \<open>path\<close>; an absolute path is not relative to the empty path or to
  \<^verbatim>\<open>.\<close>.  \<^verbatim>\<open>_is_external_lockfile\<close>: the lock file lies in the checkout of a
  repository whose operations are not disabled.
\<close>

definition path_is_relative_to :: "string \<Rightarrow> string \<Rightarrow> bool" where
  "path_is_relative_to p pre =
     (path_root p = path_root pre \<and> prefix (path_parts pre) (path_parts p))"

definition is_external_lockfile :: "(string \<times> repo) list \<Rightarrow> config_file \<Rightarrow> bool" where
  "is_external_lockfile repos lockfile =
     list_ex (\<lambda>(k, r). path_is_relative_to (filename lockfile) (path r)
                        \<and> \<not> operations_disabled r) repos"

text \<open>
  The state of \<^verbatim>\<open>_update_lockfile\<close>: the list \<^verbatim>\<open>repos_to_lock\<close>, which the
  loop shortens while it runs over it, the flag \<^verbatim>\<open>changed\<close> and the log.
\<close>

record lock_state =
  repos_to_lock :: "(string \<times> repo) list"
  changed :: bool
  events :: "log_event list"

text \<open>\<^verbatim>\<open>v['commit'] = c\<close> on the entry \<open>v\<close> of a repository.\<close>

definition set_commit :: "cfgval \<Rightarrow> cfgval \<Rightarrow> cfgval" where
  "set_commit v c = (case v of VMap m \<Rightarrow> VMap (AList.update ''commit'' c m) | _ \<Rightarrow> v)"

text \<open>
  The body of \<^verbatim>\<open>if k == rk:\<close>: the repository is removed from
  \<^verbatim>\<open>repos_to_lock\<close>; then the lock is up to date, or it is updated (the lock file
  is not external), or it is left as it is with a warning.
\<close>

definition matched_repo ::
  "(string \<times> repo) list \<Rightarrow> config_file \<Rightarrow> string \<Rightarrow> repo \<Rightarrow> cfgval \<times> lock_state \<Rightarrow>
   error + cfgval \<times> lock_state" where
  "matched_repo repos lockfile rk r vs =
     (let v = fst vs;
          st = (snd vs)\<lparr>repos_to_lock := remove1 (rk, r) (repos_to_lock (snd vs))\<rparr>
      in case py_getitem v ''commit'' of
           Inl err \<Rightarrow> Inl err
         | Inr c \<Rightarrow>
             if c = rev_val (revision r)
             then Inr (v, st\<lparr>events := events st @ [InfoUpToDate (name r) (revision r)]\<rparr>)
             else if \<not> is_external_lockfile repos lockfile
             then Inr (set_commit v (rev_val (revision r)),
                       st\<lparr>changed := True,
                          events := events st @ [InfoUpdating (name r) c (revision r)]\<rparr>)
             else Inr (v, st\<lparr>events := events st
                                  @ [WarnRemoteLock (name r) (filename lockfile)]\<rparr>))"

text \<open>
  \<^verbatim>\<open>for rk, r in repos_to_lock:\<close> with the list changing under the loop: Python's
  list iterator keeps an index \<open>i\<close>, takes the item at \<open>i\<close> while \<open>i\<close> is less than
  the current length, and steps to \<open>i + 1\<close>.
\<close>

function repos_loop ::
  "(string \<times> repo) list \<Rightarrow> config_file \<Rightarrow> string \<Rightarrow> nat \<Rightarrow> cfgval \<times> lock_state \<Rightarrow>
   error + cfgval \<times> lock_state" where
  "repos_loop repos lockfile k i (v, st) =
     (if i < length (repos_to_lock st) then
        (case repos_to_lock st ! i of
           (rk, r) \<Rightarrow>
             if k = rk then
               (case matched_repo repos lockfile rk r (v, st) of
                  Inl err \<Rightarrow> Inl err
                | Inr (v', st') \<Rightarrow> repos_loop repos lockfile k (Suc i) (v', st'))
             else repos_loop repos lockfile k (Suc i) (v, st))
      else Inr (v, st))"
  by pat_completeness auto
termination
  by (relation "measure (\<lambda>(repos, lockfile, k, i, v, st). length (repos_to_lock st) - i)")
     (auto simp: matched_repo_def Let_def length_remove1 split: sum.splits if_splits)

declare repos_loop.simps [simp del]

text \<open>
  \<^verbatim>\<open>for k, v in lockfile_config['overrides']['repos'].items():\<close>; the entries are
  returned as the loop leaves them.
\<close>

fun entries_loop ::
  "(string \<times> repo) list \<Rightarrow> config_file \<Rightarrow> (string \<times> cfgval) list \<Rightarrow> lock_state \<Rightarrow>
   error + (string \<times> cfgval) list \<times> lock_state" where
  "entries_loop repos lockfile [] st = Inr ([], st)"
| "entries_loop repos lockfile ((k, v) # rest) st =
     (case repos_loop repos lockfile k 0 (v, st) of
        Inl err \<Rightarrow> Inl err
      | Inr (v', st') \<Rightarrow>
          (case entries_loop repos lockfile rest st' of
             Inl err \<Rightarrow> Inl err
           | Inr (rest', st'') \<Rightarrow> Inr ((k, v') # rest', st'')))"

text \<open>\<^verbatim>\<open>"json" if lockfile.filename.suffix == '.json' else "yaml"\<close>; the file
  name of a lock file that the include handler found is a \<^verbatim>\<open>Path\<close>, here its
  string.\<close>

definition lockfile_format :: "config_file \<Rightarrow> string" where
  "lockfile_format lockfile =
     (let parts = path_parts (filename lockfile);
          nm = (if parts = [] then [] else last parts)
      in if path_suffix nm = ''.json'' then ''json'' else ''yaml'')"

text \<open>
  \<^verbatim>\<open>_update_lockfile(lockfile, repos_to_lock, args)\<close>, with \<^verbatim>\<open>self.repos\<close> as
  first argument: the lock file as the pass leaves it, the remaining
  \<^verbatim>\<open>repos_to_lock\<close> and the log.
\<close>

definition update_lockfile ::
  "(string \<times> repo) list \<Rightarrow> config_file \<Rightarrow> (string \<times> repo) list \<Rightarrow>
   error + config_file \<times> (string \<times> repo) list \<times> log_event list" where
  "update_lockfile repos lockfile rtl =
     (case config lockfile of
        VMap cm \<Rightarrow>
          (case map_of cm ''overrides'' of
             None \<Rightarrow> Inl KeyError
           | Some (VMap om) \<Rightarrow>
               (case map_of om ''repos'' of
                  None \<Rightarrow> Inl KeyError
                | Some (VMap items) \<Rightarrow>
                    (case entries_loop repos lockfile items
                            \<lparr>repos_to_lock = rtl, changed = False, events = []\<rparr> of
                       Inl err \<Rightarrow> Inl err
                     | Inr (items', st) \<Rightarrow>
                         (let lockfile_config =
                                VMap (AList.update ''overrides''
                                        (VMap (AList.update ''repos'' (VMap items') om)) cm);
                              lockfile' = lockfile\<lparr>config := lockfile_config\<rparr>
                          in if \<not> changed st
                             then Inr (lockfile', repos_to_lock st, events st)
                             else Inr (lockfile', repos_to_lock st,
                                       events st
                                       @ [InfoUpdatingLockfile (filename lockfile),
                                          DumpConfig lockfile_config (filename lockfile)
                                            (lockfile_format lockfile)])))
                | Some other \<Rightarrow> Inl AttributeError)
           | Some other \<Rightarrow> Inl TypeError)
      | _ \<Rightarrow> Inl TypeError)"


definition floating_repos :: "(string \<times> repo) list \<Rightarrow> (string \<times> repo) list" where
  "floating_repos repos =
     filter (\<lambda>(k, r). commit r = None \<or> commit r = Some [])
       (filter (\<lambda>(k, r). \<not> operations_disabled r) repos)"


text \<open>
  Two floating repositories and a lock file that pins \<^verbatim>\<open>r1\<close>; the lock file is
  external when it lies in the checkout of \<^verbatim>\<open>r2\<close>.
\<close>

definition repo_r1 :: repo where
  "repo_r1 = \<lparr>name = ''r1'', path = ''/w/r1'', revision = Some ''BBB'', commit = None,
               operations_disabled = False\<rparr>"


definition lock_body :: "string \<Rightarrow> cfgval" where
  "lock_body pin =
     VMap [(''header'', VMap [(''version'', VInt 14)]),
           (''overrides'', VMap [(''repos'', VMap [(''r1'', VMap [(''commit'', VStr pin)])])])]"

definition lock_document :: "string \<Rightarrow> string \<Rightarrow> config_file" where
  "lock_document fname pin =
     \<lparr>filename = fname, config = lock_body pin, src_dir = VNull, is_lockfile = True,
      is_external = False\<rparr>"

section \<open>The deep merger on the heap\<close>

text \<open>
  Python's dictionaries and lists are objects, and a value holds a reference to them: a
  merge could change an input through a reference it shares with it.  Here the heap is
  the list of the objects allocated so far, an address is an index into it, and a new
  object goes to the end.
\<close>

datatype hval = HNull | HBool bool | HInt int | HStr string | HRef nat

datatype obj = Dict "(string \<times> hval) list" | Seq "hval list"

type_synonym heap = "obj list"

text \<open>The dictionary a value refers to, if it refers to one (\<^verbatim>\<open>isinstance(v, Mapping)\<close>),
  and \<^verbatim>\<open>d[key] = v\<close> on the dictionary at an address.\<close>

definition dict_at :: "heap \<Rightarrow> hval \<Rightarrow> (string \<times> hval) list option" where
  "dict_at h v =
     (case v of
        HRef a \<Rightarrow> (if a < length h then (case h ! a of Dict d \<Rightarrow> Some d | Seq xs \<Rightarrow> None) else None)
      | _ \<Rightarrow> None)"

definition setitem :: "heap \<Rightarrow> nat \<Rightarrow> string \<Rightarrow> hval \<Rightarrow> heap" where
  "setitem h a key v =
     (case dict_at h (HRef a) of Some d \<Rightarrow> h[a := Dict (AList.update key v d)] | None \<Rightarrow> h)"

text \<open>
  A call returns a value or raises, and leaves a heap; \<open>None\<close> is "no result within
  this depth" (a dictionary that contains itself is merged without end).
\<close>

type_synonym 'a heap_outcome = "((error + 'a) \<times> heap) option"

text \<open>
  \<^verbatim>\<open>for key in updkeys:\<close> of \<^verbatim>\<open>_internal_dict_merge\<close>.  \<open>dest\<close> is the address
  of the copy \<^verbatim>\<open>OrderedDict(dest)\<close>; \<^verbatim>\<open>upd[key]\<close> and \<^verbatim>\<open>dest.get(key)\<close> are
  read from the heap as it is at that moment.
\<close>

fun merge_keys_heap ::
  "(heap \<Rightarrow> hval \<Rightarrow> hval \<Rightarrow> hval heap_outcome) \<Rightarrow> nat \<Rightarrow> hval \<Rightarrow> string list \<Rightarrow> heap \<Rightarrow>
   unit heap_outcome" where
  "merge_keys_heap rec dest upd [] h = Some (Inr (), h)"
| "merge_keys_heap rec dest upd (key # keys) h =
     (case dict_at h upd of
        None \<Rightarrow> Some (Inl TypeError, h)
      | Some u \<Rightarrow>
          (case map_of u key of
             None \<Rightarrow> Some (Inl KeyError, h)
           | Some val \<Rightarrow>
               (case dict_at h (HRef dest) of
                  None \<Rightarrow> Some (Inl TypeError, h)
                | Some d \<Rightarrow>
                    (case map_of d key of
                       None \<Rightarrow> merge_keys_heap rec dest upd keys (setitem h dest key val)
                     | Some dest_subkey \<Rightarrow>
                         if dict_at h dest_subkey \<noteq> None \<and> dict_at h val \<noteq> None
                         then (case rec h dest_subkey val of
                                 None \<Rightarrow> None
                               | Some (Inl err, h') \<Rightarrow> Some (Inl err, h')
                               | Some (Inr ret, h') \<Rightarrow>
                                   merge_keys_heap rec dest upd keys (setitem h' dest key ret))
                         else merge_keys_heap rec dest upd keys (setitem h dest key val)))))"

text \<open>\<^verbatim>\<open>for k in upd: dest[k] = upd[k]\<close>, when the two key sets do not meet.\<close>

fun assign_keys_heap :: "nat \<Rightarrow> hval \<Rightarrow> string list \<Rightarrow> heap \<Rightarrow> unit heap_outcome" where
  "assign_keys_heap dest upd [] h = Some (Inr (), h)"
| "assign_keys_heap dest upd (k # keys) h =
     (case dict_at h upd of
        None \<Rightarrow> Some (Inl TypeError, h)
      | Some u \<Rightarrow>
          (case map_of u k of
             None \<Rightarrow> Some (Inl KeyError, h)
           | Some val \<Rightarrow> assign_keys_heap dest upd keys (setitem h dest k val)))"

text \<open>\<^verbatim>\<open>_internal_dict_merge(dest, upd)\<close>: the copy is a new object.\<close>

primrec dict_merge_heap :: "nat \<Rightarrow> heap \<Rightarrow> hval \<Rightarrow> hval \<Rightarrow> hval heap_outcome" where
  "dict_merge_heap 0 h dest upd = None"
| "dict_merge_heap (Suc n) h dest upd =
     (case (dict_at h dest, dict_at h upd) of
        (Some d, Some u) \<Rightarrow>
          (let copy = length h;
               h1 = h @ [Dict d];
               updkeys = map fst u
           in if set (map fst d) \<inter> set updkeys \<noteq> {}
              then (case merge_keys_heap (dict_merge_heap n) copy upd updkeys h1 of
                      None \<Rightarrow> None
                    | Some (Inl err, h') \<Rightarrow> Some (Inl err, h')
                    | Some (Inr u, h') \<Rightarrow> Some (Inr (HRef copy), h'))
              else (case assign_keys_heap copy upd updkeys h1 of
                      None \<Rightarrow> None
                    | Some (Inl err, h') \<Rightarrow> Some (Inl err, h')
                    | Some (Inr u, h') \<Rightarrow> Some (Inr (HRef copy), h')))
      | _ \<Rightarrow> Some (Inl IncludeError, h))"

text \<open>\<^verbatim>\<open>functools.reduce(_internal_dict_merge, bodies)\<close> on the heap.\<close>

fun reduce_from_heap :: "nat \<Rightarrow> heap \<Rightarrow> hval \<Rightarrow> hval list \<Rightarrow> hval heap_outcome" where
  "reduce_from_heap n h acc [] = Some (Inr acc, h)"
| "reduce_from_heap n h acc (upd # rest) =
     (case dict_merge_heap n h acc upd of
        None \<Rightarrow> None
      | Some (Inl err, h') \<Rightarrow> Some (Inl err, h')
      | Some (Inr acc', h') \<Rightarrow> reduce_from_heap n h' acc' rest)"

fun reduce_merge_heap :: "nat \<Rightarrow> heap \<Rightarrow> hval list \<Rightarrow> hval heap_outcome" where
  "reduce_merge_heap n h [] = Some (Inl TypeError, h)"
| "reduce_merge_heap n h (first # rest) = reduce_from_heap n h first rest"

text \<open>
  The tree a value stands for in a heap, read to a given depth; a heap is closed when
  every reference in it is to one of its objects; \<open>only_at a h h'\<close> says that \<open>h'\<close>
  has the objects of \<open>h\<close>, unchanged except at address \<open>a\<close>, and possibly more.
\<close>

primrec value_of :: "nat \<Rightarrow> heap \<Rightarrow> hval \<Rightarrow> cfgval option" where
  "value_of 0 h v = None"
| "value_of (Suc n) h v =
     (case v of
        HNull \<Rightarrow> Some VNull
      | HBool b \<Rightarrow> Some (VBool b)
      | HInt i \<Rightarrow> Some (VInt i)
      | HStr s \<Rightarrow> Some (VStr s)
      | HRef a \<Rightarrow>
          (if a < length h
           then (case h ! a of
                   Dict d \<Rightarrow>
                     map_option VMap
                       (those (map (\<lambda>p. map_option (Pair (fst p)) (value_of n h (snd p))) d))
                 | Seq xs \<Rightarrow> map_option VList (those (map (value_of n h) xs)))
           else None))"

fun ref_below :: "nat \<Rightarrow> hval \<Rightarrow> bool" where
  "ref_below n (HRef a) = (a < n)"
| "ref_below n v = True"

definition closed :: "heap \<Rightarrow> bool" where
  "closed h =
     list_all (\<lambda>ob. case ob of
                      Dict d \<Rightarrow> list_all (\<lambda>p. ref_below (length h) (snd p)) d
                    | Seq xs \<Rightarrow> list_all (ref_below (length h)) xs) h"

definition only_at :: "nat \<Rightarrow> heap \<Rightarrow> heap \<Rightarrow> bool" where
  "only_at a h h' = (length h \<le> length h' \<and> (\<forall>b < length h. b \<noteq> a \<longrightarrow> h' ! b = h ! b))"

text \<open>Two documents on a heap: the bodies at addresses 0 and 2.\<close>

definition heap0 :: heap where
  "heap0 = [Dict [(''a'', HRef 1), (''c'', HInt 2)], Dict [(''b'', HInt 1)],
            Dict [(''a'', HRef 3), (''e'', HRef 4)], Dict [(''d'', HInt 1)], Seq [HRef 3]]"

section \<open>Properties of the deep merger\<close>

lemma merge_keys_total_aux:
  "(\<And>d u k. (k, VMap u) \<in> set items \<Longrightarrow> \<exists>r. internal_dict_merge (VMap d) (VMap u) = Inr (VMap r))
   \<Longrightarrow> \<exists>r. merge_keys dst items = Inr r"
proof (induction items arbitrary: dst)
  case Nil then show ?case by simp
next
  case (Cons a items)
  obtain k v where a: "a = (k, v)" by (cases a)
  have IH: "\<And>dst. \<exists>r. merge_keys dst items = Inr r"
  proof -
    fix dst show "\<exists>r. merge_keys dst items = Inr r"
    proof (rule Cons.IH)
      fix d u k assume "(k, VMap u) \<in> set items"
      then have "(k, VMap u) \<in> set (a # items)" by simp
      then show "\<exists>r. internal_dict_merge (VMap d) (VMap u) = Inr (VMap r)" by (rule Cons.prems)
    qed
  qed
  show ?case
  proof (cases "\<exists>d u. map_of dst k = Some (VMap d) \<and> v = VMap u")
    case True
    then obtain d u where du: "map_of dst k = Some (VMap d)" "v = VMap u" by blast
    from Cons.prems[of k u d] obtain r where
      r: "internal_dict_merge (VMap d) (VMap u) = Inr (VMap r)" using a du by auto
    show ?thesis using IH[of "AList.update k (VMap r) dst"] a du r by simp
  next
    case False
    then show ?thesis using IH[of "AList.update k v dst"] a
      by (auto split: option.splits cfgval.splits)
  qed
qed

lemma merge_total: "\<exists>r. internal_dict_merge (VMap d) upd = Inr (VMap r) \<or> \<not> is_mapping upd"
proof (induction upd arbitrary: d)
  case (VMap u)
  have "\<exists>r. merge_keys d u = Inr r"
  proof (rule merge_keys_total_aux)
    fix d' u' k assume "(k, VMap u') \<in> set u"
    then show "\<exists>r. internal_dict_merge (VMap d') (VMap u') = Inr (VMap r)"
      using VMap[of "(k, VMap u')" "VMap u'" d'] by auto
  qed
  then show ?case by auto
qed auto



lemma merge_keys_step:
  "merge_keys dst ((k, v) # items) = merge_keys (AList.update k (merged_value (map_of dst k) v) dst) items"
proof (cases "\<exists>d u. map_of dst k = Some (VMap d) \<and> v = VMap u")
  case True
  then obtain d u where du: "map_of dst k = Some (VMap d)" "v = VMap u" by blast
  from merge_total[of d v] du obtain r where "internal_dict_merge (VMap d) (VMap u) = Inr (VMap r)"
    by auto
  then show ?thesis using du by (simp add: merged_value_def)
next
  case False
  then show ?thesis by (auto simp: merged_value_def split: option.splits cfgval.splits)
qed






lemma merge_keys_same:
  "(\<And>k v. (k, v) \<in> set items \<Longrightarrow> map_of dst k = Some v \<and> merged_value (Some v) v = v)
   \<Longrightarrow> merge_keys dst items = Inr dst"
proof (induction items)
  case Nil then show ?case by simp
next
  case (Cons a items)
  obtain k v where a: "a = (k, v)" by (cases a)
  from Cons.prems[of k v] have kv: "map_of dst k = Some v" "merged_value (Some v) v = v"
    unfolding a by auto
  have "merge_keys dst items = Inr dst"
  proof (rule Cons.IH)
    fix k v assume "(k, v) \<in> set items"
    then have "(k, v) \<in> set (a # items)" by simp
    then show "map_of dst k = Some v \<and> merged_value (Some v) v = v" by (rule Cons.prems)
  qed
  then show ?case unfolding a merge_keys_step using kv by (simp add: update_triv)
qed

lemma dict_merge_idem: "wf_val v \<Longrightarrow> is_mapping v \<Longrightarrow> internal_dict_merge v v = Inr v"
proof (induction v)
  case (VMap m)
  show ?case
  proof (cases m)
    case Nil then show ?thesis by simp
  next
    case (Cons p ps)
    then have ne: "set (map fst m) \<inter> set (map fst m) \<noteq> {}" by auto
    from VMap.prems have dist: "distinct (map fst m)" and wf: "\<And>p. p \<in> set m \<Longrightarrow> wf_val (snd p)"
      by (auto simp: list_all_iff)
    have "merge_keys m m = Inr m"
    proof (rule merge_keys_same)
      fix k v assume kv: "(k, v) \<in> set m"
      have "merged_value (Some v) v = v"
      proof (cases "is_mapping v")
        case True
        have "internal_dict_merge v v = Inr v"
          using VMap.IH[of "(k, v)" v] kv wf[OF kv] True by auto
        with True show ?thesis by (cases v) (auto simp: merged_value_def)
      next
        case False
        then show ?thesis by (cases v) (auto simp: merged_value_def)
      qed
      with kv dist show "map_of m k = Some v \<and> merged_value (Some v) v = v" by simp
    qed
    with ne show ?thesis by simp
  qed
qed auto




text \<open>
  C9.  Folding a document with itself gives back its body: for a document whose body is
  a mapping (with unique keys at every level, as every Python dictionary has),
  \<open>merge([D, D])\<close> is \<open>D.body\<close>.
\<close>

theorem deep_merge_idempotent:
  assumes "is_mapping (config D)" and "wf_val (config D)"
  shows "merge_documents [D, D] = Inr (config D)"
  using dict_merge_idem[OF assms(2) assms(1)] by (simp add: merge_documents_def)

theorem deep_merge_idempotent_witness:
  "is_mapping (config \<lparr>filename = ''/w/a.yml'',
       config = VMap [(''header'', VMap [(''version'', VInt 14)]), (''x'', VList [VInt 1])],
       src_dir = VNull, is_lockfile = False, is_external = False\<rparr>)
   \<and> wf_val (config \<lparr>filename = ''/w/a.yml'',
       config = VMap [(''header'', VMap [(''version'', VInt 14)]), (''x'', VList [VInt 1])],
       src_dir = VNull, is_lockfile = False, is_external = False\<rparr>)
   \<and> merge_documents [\<lparr>filename = ''/w/a.yml'',
       config = VMap [(''header'', VMap [(''version'', VInt 14)]), (''x'', VList [VInt 1])],
       src_dir = VNull, is_lockfile = False, is_external = False\<rparr>,
      \<lparr>filename = ''/w/a.yml'',
       config = VMap [(''header'', VMap [(''version'', VInt 14)]), (''x'', VList [VInt 1])],
       src_dir = VNull, is_lockfile = False, is_external = False\<rparr>]
     = Inr (VMap [(''header'', VMap [(''version'', VInt 14)]), (''x'', VList [VInt 1])])"
proof -
  let ?D = "\<lparr>filename = ''/w/a.yml'',
       config = VMap [(''header'', VMap [(''version'', VInt 14)]), (''x'', VList [VInt 1])],
       src_dir = VNull, is_lockfile = False, is_external = False\<rparr>"
  have h1: "is_mapping (config ?D)" by simp
  have h2: "wf_val (config ?D)" by simp
  from deep_merge_idempotent[OF h1 h2] h1 h2 show ?thesis by simp
qed



section \<open>Properties of the loader\<close>

lemma version_value_map: "version_value e cfg = Inr v \<Longrightarrow> \<exists>m. cfg = VMap m"
  by (cases cfg) (auto simp: version_value_def)

text \<open>
  C6.  For a file with a recognised extension that parses and validates, and whose
  \<^verbatim>\<open>header.version\<close> yields the version value \<open>v\<close>: when \<open>v\<close> lies outside the
  window from \<open>compatible_file_version\<close> to \<open>file_version\<close>, loading fails with
  \<open>LoadConfigError\<close>; when it lies inside (bounds included), loading succeeds.
\<close>

theorem version_window:
  assumes "splitext_ext fname = ''.json'' \<or> splitext_ext fname = ''.yml'' \<or> splitext_ext fname = ''.yaml''"
    and "files e fname = Some (Parsed cfg)" and "schema_ok e cfg"
    and "version_value e cfg = Inr v"
  shows "(v < compatible_file_version e \<or> file_version e < v \<longrightarrow>
            load_config e fname lockf ext = Inl LoadConfigError)
       \<and> (compatible_file_version e \<le> v \<and> v \<le> file_version e \<longrightarrow>
            (\<exists>c. load_config e fname lockf ext = Inr c \<and> config c = cfg \<and> filename c = fname))"
proof -
  from version_value_map[OF assms(4)] obtain m where "cfg = VMap m" by blast
  then show ?thesis using assms by (auto simp: load_config_def Let_def)
qed

theorem version_window_witness:
  "(splitext_ext ''/w/b.yml'' = ''.json'' \<or> splitext_ext ''/w/b.yml'' = ''.yml''
      \<or> splitext_ext ''/w/b.yml'' = ''.yaml'')
   \<and> files project_env ''/w/b.yml'' = Some (Parsed (kas_doc []))
   \<and> schema_ok project_env (kas_doc [])
   \<and> version_value project_env (kas_doc []) = Inr 14
   \<and> compatible_file_version project_env \<le> 14 \<and> 14 \<le> file_version project_env
   \<and> (\<exists>c. load_config project_env ''/w/b.yml'' False False = Inr c \<and> config c = kas_doc []
           \<and> filename c = ''/w/b.yml'')"
proof -
  have h1: "splitext_ext ''/w/b.yml'' = ''.json'' \<or> splitext_ext ''/w/b.yml'' = ''.yml''
      \<or> splitext_ext ''/w/b.yml'' = ''.yaml''" by code_simp
  have h2: "files project_env ''/w/b.yml'' = Some (Parsed (kas_doc []))" by code_simp
  have h3: "schema_ok project_env (kas_doc [])" by code_simp
  have h4: "version_value project_env (kas_doc []) = Inr 14" by code_simp
  have h5: "compatible_file_version project_env \<le> 14 \<and> 14 \<le> file_version project_env"
    by (simp add: project_env_def)
  from version_window[OF h1 h2 h3 h4, of False False] h5
  have "\<exists>c. load_config project_env ''/w/b.yml'' False False = Inr c \<and> config c = kas_doc []
           \<and> filename c = ''/w/b.yml''" by blast
  with h1 h2 h3 h4 h5 show ?thesis by blast
qed

section \<open>Properties of the include handler\<close>

text \<open>
  C4.  The claim is that a missing configuration file makes resolution fail with
  \<open>LoadConfigError\<close>.  In the code, a missing file with a recognised extension makes
  \<^verbatim>\<open>open\<close> raise \<^verbatim>\<open>FileNotFoundError\<close> inside \<^verbatim>\<open>ConfigFile\<close>, and the
  handler's \<^verbatim>\<open>except\<close> clause then reads the unbound \<^verbatim>\<open>current_config\<close>:
  the visit fails with \<open>UnboundLocalError\<close>.
\<close>

theorem missing_file_unbound:
  assumes "splitext_ext fname = ''.json'' \<or> splitext_ext fname = ''.yml'' \<or> splitext_ext fname = ''.yaml''"
    and "files e fname = None"
  shows "internal_include_handler (Suc n) e ul repos trp fname repo_path lockf ext = Some (Inl UnboundLocalError)"
  using assms by (auto simp: load_config_def Let_def)

theorem missing_file_unbound_witness:
  "(splitext_ext ''/w/zz.yml'' = ''.json'' \<or> splitext_ext ''/w/zz.yml'' = ''.yml''
      \<or> splitext_ext ''/w/zz.yml'' = ''.yaml'')
   \<and> files project_env ''/w/zz.yml'' = None
   \<and> internal_include_handler (Suc 0) project_env True Map.empty (VStr ''/w'') ''/w/zz.yml''
         (VStr ''/w'') False False = Some (Inl UnboundLocalError)
   \<and> resolve 1 project_env (project_handler [''/w/zz.yml'']) Map.empty
         = Some (Inl UnboundLocalError)"
proof -
  have h1: "splitext_ext ''/w/zz.yml'' = ''.json'' \<or> splitext_ext ''/w/zz.yml'' = ''.yml''
      \<or> splitext_ext ''/w/zz.yml'' = ''.yaml''" by code_simp
  have h2: "files project_env ''/w/zz.yml'' = None" by code_simp
  note h3 = missing_file_unbound[OF h1 h2, of 0 True Map.empty "VStr ''/w''" "VStr ''/w''" False False]
  have h4: "resolve 1 project_env (project_handler [''/w/zz.yml'']) Map.empty
         = Some (Inl UnboundLocalError)"
    using h3 by (simp add: resolve_def project_handler_def)
  from h1 h2 h3 h4 show ?thesis by blast
qed

lemma include_loop_blocks:
  "include_loop rec e repos cur rp ext incs (c0, m0, t0) = Some (Inr (c, m, t)) \<Longrightarrow>
   \<exists>blocks. c = c0 @ concat blocks \<and>
     list_all2 (\<lambda>inc block. block_of rec (include_target e repos cur rp ext inc) block) incs blocks"
proof (induction incs arbitrary: c0 m0 t0)
  case Nil
  then show ?case by simp
next
  case (Cons inc incs)
  have "\<exists>b m1 t1. block_of rec (include_target e repos cur rp ext inc) b \<and>
          include_loop rec e repos cur rp ext incs (c0 @ b, m1, t1) = Some (Inr (c, m, t))"
  proof (cases inc)
    case (VStr s)
    with Cons.prems show ?thesis
      by (auto simp: block_of_def split: sum.splits option.splits)
  next
    case (VMap im)
    with Cons.prems show ?thesis
      by (auto simp: block_of_def Let_def split: sum.splits option.splits cfgval.splits)
  next
    case VNull
    with Cons.prems show ?thesis
      by (auto simp: block_of_def)
  next
    case (VBool x)
    with Cons.prems show ?thesis
      by (auto simp: block_of_def)
  next
    case (VInt x)
    with Cons.prems show ?thesis
      by (auto simp: block_of_def)
  next
    case (VList x)
    with Cons.prems show ?thesis
      by (auto simp: block_of_def)
  qed
  then obtain b m1 t1 where b: "block_of rec (include_target e repos cur rp ext inc) b"
    and r: "include_loop rec e repos cur rp ext incs (c0 @ b, m1, t1) = Some (Inr (c, m, t))"
    by blast
  from Cons.IH[OF r] obtain blocks where
    "c = (c0 @ b) @ concat blocks"
    "list_all2 (\<lambda>inc block. block_of rec (include_target e repos cur rp ext inc) block) incs blocks"
    by blast
  with b show ?case by (intro exI[of _ "b # blocks"]) simp
qed

lemma load_config_fields:
  "load_config e fname lockf ext = Inr c \<Longrightarrow>
   filename c = fname \<and> is_lockfile c = lockf \<and> is_external c = ext
   \<and> files e fname = Some (Parsed (config c)) \<and> is_mapping (config c)"
  by (auto simp: load_config_def Let_def split: if_splits option.splits file_content.splits
      sum.splits cfgval.splits)

lemma handler_shape:
  assumes "internal_include_handler (Suc n) e ul repos trp fname rp lk ex = Some (Inr (cfgs, miss, trp'))"
  shows "\<exists>cur lockdocs incs blocks.
     load_config e fname lk ex = Inr cur \<and> header_includes (config cur) = Inr incs
     \<and> cfgs = lockdocs @ concat blocks @ [cur]
     \<and> list_all2 (\<lambda>inc block. block_of (internal_include_handler n e ul repos)
          (include_target e repos fname (if truthy (src_dir cur) then src_dir cur else rp) ex inc)
          block) incs blocks
     \<and> (if ul \<and> path_exists e (get_lockfile fname)
        then \<exists>m t. internal_include_handler n e ul repos trp (get_lockfile fname) rp True ex
                     = Some (Inr (lockdocs, m, t))
        else lockdocs = [])"
proof -
  from assms obtain cur where cur: "load_config e fname lk ex = Inr cur"
    by (auto split: sum.splits)
  let ?lock = "if ul \<and> path_exists e (get_lockfile fname)
                 then internal_include_handler n e ul repos trp (get_lockfile fname) rp True ex
                 else Some (Inr ([], [], trp))"
  from assms cur obtain lockdocs lm lt where lock: "?lock = Some (Inr (lockdocs, lm, lt))"
    by (simp split: option.splits sum.splits prod.splits)
  let ?rp = "if truthy (src_dir cur) then src_dir cur else rp"
  let ?t2 = "if truthy (src_dir cur) then src_dir cur else lt"
  from assms cur lock obtain incs where incs: "header_includes (config cur) = Inr incs"
    by (simp add: Let_def split: sum.splits)
  from assms cur lock incs obtain c' m' where
    loop: "include_loop (internal_include_handler n e ul repos) e repos fname ?rp ex incs
             (lockdocs, lm, ?t2) = Some (Inr (c', m', trp'))"
    and cfgs: "cfgs = c' @ [cur]"
    by (simp add: Let_def split: option.splits sum.splits prod.splits)
  from include_loop_blocks[OF loop] obtain blocks where
    b: "c' = lockdocs @ concat blocks"
      "list_all2 (\<lambda>inc block. block_of (internal_include_handler n e ul repos)
          (include_target e repos fname ?rp ex inc) block) incs blocks"
    by blast
  have l: "if ul \<and> path_exists e (get_lockfile fname)
        then \<exists>m t. internal_include_handler n e ul repos trp (get_lockfile fname) rp True ex
                     = Some (Inr (lockdocs, m, t))
        else lockdocs = []"
    using lock by (auto split: if_splits)
  show ?thesis
    apply (rule exI[of _ cur], rule exI[of _ lockdocs], rule exI[of _ incs], rule exI[of _ blocks])
    using cur incs cfgs b l by simp
qed

lemma top_files_loop_blocks:
  "top_files_loop n e ul repos tops (c0, m0, t0) = Some (Inr (c, m, t)) \<Longrightarrow>
   \<exists>blocks. c = c0 @ concat blocks \<and>
     list_all2 (\<lambda>configfile block. \<exists>trp missing trp'.
        internal_include_handler n e ul repos trp configfile trp False False
          = Some (Inr (block, missing, trp'))) tops blocks"
proof (induction tops arbitrary: c0 m0 t0)
  case Nil
  then show ?case by simp
next
  case (Cons f tops)
  from Cons.prems obtain b bm bt where
    b: "internal_include_handler n e ul repos t0 f t0 False False = Some (Inr (b, bm, bt))"
    and r: "top_files_loop n e ul repos tops (c0 @ b, append_new m0 bm, bt) = Some (Inr (c, m, t))"
    by (auto split: option.splits sum.splits)
  from Cons.IH[OF r] obtain blocks where
    "c = (c0 @ b) @ concat blocks"
    "list_all2 (\<lambda>configfile block. \<exists>trp missing trp'.
        internal_include_handler n e ul repos trp configfile trp False False
          = Some (Inr (block, missing, trp'))) tops blocks"
    by blast
  with b show ?case by (intro exI[of _ "b # blocks"]) auto
qed

lemma include_loop_mono:
  assumes H: "\<And>t f rp lk ex r. rec t f rp lk ex = Some r \<Longrightarrow> rec' t f rp lk ex = Some r"
  shows "include_loop rec e repos cur rp ex incs acc = Some r \<Longrightarrow>
         include_loop rec' e repos cur rp ex incs acc = Some r"
proof (induction incs arbitrary: acc)
  case Nil
  then show ?case by simp
next
  case (Cons inc incs)
  obtain c m t where acc: "acc = (c, m, t)" by (cases acc)
  show ?case
  proof (cases inc)
    case (VStr s)
    show ?thesis
    proof (cases "local_include_file e cur rp s")
      case (Inl err)
      with Cons.prems VStr acc show ?thesis by simp
    next
      case (Inr f)
      show ?thesis
      proof (cases "rec t f rp False ex")
        case None
        with Cons.prems VStr acc Inr show ?thesis by simp
      next
        case (Some x)
        from H[OF Some] have "rec' t f rp False ex = Some x" .
        with Cons.prems VStr acc Inr Some Cons.IH show ?thesis
          by (auto split: sum.splits)
      qed
    qed
  next
    case (VMap im)
    show ?thesis
    proof (cases "\<exists>dir f. repos_get repos (dict_get im ''repo'') = Inr (Some dir) \<and> map_of im ''file'' = Some (VStr f)")
      case True
      then obtain dir f where d: "repos_get repos (dict_get im ''repo'') = Inr (Some dir)"
        "map_of im ''file'' = Some (VStr f)" by blast
      let ?a = "os_path_abspath (cwd e) dir"
      show ?thesis
      proof (cases "rec t (os_path_join ?a f) (VStr ?a) False True")
        case None
        with Cons.prems VMap acc d show ?thesis by (simp add: Let_def)
      next
        case (Some x)
        from H[OF Some] have "rec' t (os_path_join ?a f) (VStr ?a) False True = Some x" .
        with Cons.prems VMap acc d Some Cons.IH show ?thesis
          by (auto simp: Let_def split: sum.splits)
      qed
    next
      case False
      with Cons.prems VMap acc Cons.IH show ?thesis
        by (auto simp: Let_def split: sum.splits option.splits cfgval.splits)
    qed
  qed (use Cons.prems Cons.IH in auto)
qed

lemma handler_step_mono:
  assumes H: "\<And>t f rp lk ex r. internal_include_handler n e ul repos t f rp lk ex = Some r
                \<Longrightarrow> internal_include_handler m e ul repos t f rp lk ex = Some r"
    and S: "internal_include_handler (Suc n) e ul repos trp fname rp lk ex = Some r"
  shows "internal_include_handler (Suc m) e ul repos trp fname rp lk ex = Some r"
proof (cases "load_config e fname lk ex")
  case (Inl err)
  with S show ?thesis by simp
next
  case (Inr cur)
  let ?lock = "\<lambda>k. if ul \<and> path_exists e (get_lockfile fname)
                 then internal_include_handler k e ul repos trp (get_lockfile fname) rp True ex
                 else Some (Inr ([], [], trp))"
  from S Inr obtain x where x: "?lock n = Some x" by (cases "?lock n") auto
  then have x': "?lock m = Some x" using H by (auto split: if_splits)
  show ?thesis
  proof (cases x)
    case (Inl err)
    with S Inr x x' show ?thesis by simp
  next
    case xr: (Inr res)
    obtain ld lm lt where res: "res = (ld, lm, lt)" by (cases res)
    show ?thesis
    proof (cases "header_includes (config cur)")
      case (Inl err)
      with S Inr x x' xr res show ?thesis by (simp add: Let_def)
    next
      case hi: (Inr incs)
      let ?rp = "if truthy (src_dir cur) then src_dir cur else rp"
      let ?t2 = "if truthy (src_dir cur) then src_dir cur else lt"
      let ?loop = "\<lambda>k. include_loop (internal_include_handler k e ul repos) e repos fname ?rp ex incs
             (ld, lm, ?t2)"
      from S Inr x xr res hi obtain y where y: "?loop n = Some y"
        by (cases "?loop n") (auto simp: Let_def)
      have y': "?loop m = Some y"
        by (rule include_loop_mono[OF _ y]) (rule H)
      from S Inr x xr res hi y have "r = (case y of Inl err \<Rightarrow> Inl err
            | Inr (configs', missing', trp') \<Rightarrow> Inr (configs' @ [cur], ordered_dedup missing', trp'))"
        by (auto simp: Let_def split: sum.splits)
      with Inr x' xr res hi y' show ?thesis
        by (auto simp: Let_def split: sum.splits)
    qed
  qed
qed

lemma handler_Suc_mono:
  "internal_include_handler n e ul repos trp fname rp lk ex = Some r \<Longrightarrow>
   internal_include_handler (Suc n) e ul repos trp fname rp lk ex = Some r"
proof (induction n arbitrary: trp fname rp lk ex r)
  case 0
  then show ?case by simp
next
  case (Suc n)
  show ?case
    by (rule handler_step_mono[OF _ Suc.prems]) (rule Suc.IH)
qed

lemma handler_mono:
  "internal_include_handler n e ul repos trp fname rp lk ex = Some r \<Longrightarrow>
   internal_include_handler (n + k) e ul repos trp fname rp lk ex = Some r"
proof (induction k)
  case 0
  then show ?case by simp
next
  case (Suc k)
  from Suc.IH[OF Suc.prems] show ?case
    unfolding add_Suc_right by (rule handler_Suc_mono)
qed

lemma top_files_loop_mono:
  "top_files_loop n e ul repos tops acc = Some r \<Longrightarrow>
   top_files_loop (n + k) e ul repos tops acc = Some r"
proof (induction tops arbitrary: acc)
  case Nil
  then show ?case by simp
next
  case (Cons f tops)
  obtain c m t where acc: "acc = (c, m, t)" by (cases acc)
  from Cons.prems acc obtain x where
    x: "internal_include_handler n e ul repos t f t False False = Some x"
    by (cases "internal_include_handler n e ul repos t f t False False") auto
  from handler_mono[OF x] have x': "internal_include_handler (n + k) e ul repos t f t False False = Some x" .
  from Cons.prems acc x x' Cons.IH show ?case
    by (auto split: sum.splits)
qed

lemma resolve_mono:
  "resolve n e h repos = Some r \<Longrightarrow> resolve (n + k) e h repos = Some r"
  unfolding resolve_def by (rule top_files_loop_mono)

lemma include_loop_append:
  "include_loop rec e repos cur rp ex (xs @ ys) acc =
     (case include_loop rec e repos cur rp ex xs acc of
        Some (Inr acc') \<Rightarrow> include_loop rec e repos cur rp ex ys acc'
      | r \<Rightarrow> r)"
proof (induction xs arbitrary: acc)
  case Nil
  then show ?case by simp
next
  case (Cons inc xs)
  obtain c m t where acc: "acc = (c, m, t)" by (cases acc)
  show ?case unfolding acc
    by (cases inc) (auto simp: Cons.IH Let_def split: sum.splits option.splits cfgval.splits)
qed

lemma handler_last:
  assumes "internal_include_handler n e ul repos trp fname rp lk ex = Some (Inr (cfgs, miss, trp'))"
  shows "\<exists>docs cur. cfgs = docs @ [cur] \<and> load_config e fname lk ex = Inr cur
           \<and> filename cur = fname \<and> is_lockfile cur = lk \<and> is_external cur = ex"
proof (cases n)
  case 0
  with assms show ?thesis by simp
next
  case (Suc k)
  from handler_shape[OF assms[unfolded Suc]] obtain cur lockdocs blocks where
    "load_config e fname lk ex = Inr cur" "cfgs = lockdocs @ concat blocks @ [cur]" by blast
  then show ?thesis using load_config_fields[of e fname lk ex cur]
    by (intro exI[of _ "lockdocs @ concat blocks"] exI[of _ cur]) simp
qed

lemma handler_docs_exist:
  "internal_include_handler n e ul repos trp fname rp lk ex = Some (Inr (cfgs, miss, trp')) \<Longrightarrow>
   c \<in> set cfgs \<Longrightarrow> path_exists e (filename c)"
proof (induction n arbitrary: trp fname rp lk ex cfgs miss trp' c)
  case 0
  then show ?case by simp
next
  case (Suc n)
  from handler_shape[OF Suc.prems(1)] obtain cur lockdocs incs blocks where
    cur: "load_config e fname lk ex = Inr cur"
    and cfgs: "cfgs = lockdocs @ concat blocks @ [cur]"
    and bl: "list_all2 (\<lambda>inc block. block_of (internal_include_handler n e ul repos)
          (include_target e repos fname (if truthy (src_dir cur) then src_dir cur else rp) ex inc)
          block) incs blocks"
    and lock: "if ul \<and> path_exists e (get_lockfile fname)
        then \<exists>m t. internal_include_handler n e ul repos trp (get_lockfile fname) rp True ex
                     = Some (Inr (lockdocs, m, t))
        else lockdocs = []"
    by blast
  from Suc.prems(2) cfgs consider "c \<in> set lockdocs" | "\<exists>b \<in> set blocks. c \<in> set b" | "c = cur"
    by auto
  then show ?case
  proof cases
    case 1
    with lock obtain m t where
      "internal_include_handler n e ul repos trp (get_lockfile fname) rp True ex = Some (Inr (lockdocs, m, t))"
      by (auto split: if_splits)
    from Suc.IH[OF this 1] show ?thesis .
  next
    case 2
    then obtain b where b: "b \<in> set blocks" "c \<in> set b" by blast
    from bl b(1) obtain inc where
      "block_of (internal_include_handler n e ul repos)
          (include_target e repos fname (if truthy (src_dir cur) then src_dir cur else rp) ex inc) b"
      by (auto simp: list_all2_conv_all_nth in_set_conv_nth)
    with b(2) obtain t f rp' ex' m t' where
      "internal_include_handler n e ul repos t f rp' False ex' = Some (Inr (b, m, t'))"
      by (auto simp: block_of_def split: option.splits)
    from Suc.IH[OF this b(2)] show ?thesis .
  next
    case 3
    with load_config_fields[OF cur] show ?thesis by (simp add: path_exists_def)
  qed
qed


text \<open>
  C1.  A successful visit returns the documents of the lock sibling (when locking is on
  and it exists), then, for each include in listed order, the documents of the visit of
  that include, then the visited document itself, last: children before parent.  A
  successful \<open>resolve\<close> returns the documents of its top files' visits, in order.  For
  the top file \<^verbatim>\<open>a.yml\<close> that includes the local \<^verbatim>\<open>b.yml\<close> and \<^verbatim>\<open>c.yml\<close> of
  repository \<^verbatim>\<open>x\<close>: with \<^verbatim>\<open>x\<close> unknown the result is the documents b, a and
  the missing repositories \<^verbatim>\<open>["x"]\<close>; with \<^verbatim>\<open>x\<close> known it is b, c, a and no
  missing repository (at every depth bound of three or more).
\<close>

theorem resolve_depth_first:
  "(internal_include_handler (Suc n) e ul repos trp fname rp lk ex = Some (Inr (cfgs, miss, trp')) \<longrightarrow>
      (\<exists>cur lockdocs incs blocks.
         load_config e fname lk ex = Inr cur \<and> filename cur = fname
         \<and> header_includes (config cur) = Inr incs
         \<and> cfgs = lockdocs @ concat blocks @ [cur]
         \<and> list_all2 (\<lambda>inc block. block_of (internal_include_handler n e ul repos)
              (include_target e repos fname (if truthy (src_dir cur) then src_dir cur else rp) ex inc)
              block) incs blocks
         \<and> (if ul \<and> path_exists e (get_lockfile fname)
            then \<exists>m t. internal_include_handler n e ul repos trp (get_lockfile fname) rp True ex
                         = Some (Inr (lockdocs, m, t))
            else lockdocs = [])))
   \<and> (resolve n e h repos = Some (Inr (docs, missing, t)) \<longrightarrow>
        (\<exists>blocks. docs = concat blocks \<and>
           list_all2 (\<lambda>configfile block. \<exists>trp missing trp'.
              internal_include_handler n e (use_lock h) repos trp configfile trp False False
                = Some (Inr (block, missing, trp'))) (top_files h) blocks))
   \<and> resolve (3 + k) project_env (project_handler [''/w/a.yml'']) Map.empty
       = Some (Inr ([loaded ''/w/b.yml'' [] False False,
                     loaded ''/w/a.yml''
                       [VStr ''b.yml'', VMap [(''repo'', VStr ''x''), (''file'', VStr ''c.yml'')]]
                       False False],
                    [VStr ''x''], VStr ''/w''))
   \<and> resolve (3 + k) project_env (project_handler [''/w/a.yml'']) [''x'' \<mapsto> ''/x'']
       = Some (Inr ([loaded ''/w/b.yml'' [] False False,
                     loaded ''/x/c.yml'' [] False True,
                     loaded ''/w/a.yml''
                       [VStr ''b.yml'', VMap [(''repo'', VStr ''x''), (''file'', VStr ''c.yml'')]]
                       False False],
                    [], VStr ''/w''))"
proof (intro conjI impI)
  assume a: "internal_include_handler (Suc n) e ul repos trp fname rp lk ex = Some (Inr (cfgs, miss, trp'))"
  from handler_shape[OF a] obtain cur lockdocs incs blocks where
    s: "load_config e fname lk ex = Inr cur" "header_includes (config cur) = Inr incs"
     "cfgs = lockdocs @ concat blocks @ [cur]"
     "list_all2 (\<lambda>inc block. block_of (internal_include_handler n e ul repos)
              (include_target e repos fname (if truthy (src_dir cur) then src_dir cur else rp) ex inc)
              block) incs blocks"
     "if ul \<and> path_exists e (get_lockfile fname)
            then \<exists>m t. internal_include_handler n e ul repos trp (get_lockfile fname) rp True ex
                         = Some (Inr (lockdocs, m, t))
            else lockdocs = []"
    by blast
  from load_config_fields[OF s(1)] have "filename cur = fname" by simp
  with s show "\<exists>cur lockdocs incs blocks.
         load_config e fname lk ex = Inr cur \<and> filename cur = fname
         \<and> header_includes (config cur) = Inr incs
         \<and> cfgs = lockdocs @ concat blocks @ [cur]
         \<and> list_all2 (\<lambda>inc block. block_of (internal_include_handler n e ul repos)
              (include_target e repos fname (if truthy (src_dir cur) then src_dir cur else rp) ex inc)
              block) incs blocks
         \<and> (if ul \<and> path_exists e (get_lockfile fname)
            then \<exists>m t. internal_include_handler n e ul repos trp (get_lockfile fname) rp True ex
                         = Some (Inr (lockdocs, m, t))
            else lockdocs = [])"
    by blast
next
  assume "resolve n e h repos = Some (Inr (docs, missing, t))"
  from top_files_loop_blocks[OF this[unfolded resolve_def]]
  show "\<exists>blocks. docs = concat blocks \<and>
           list_all2 (\<lambda>configfile block. \<exists>trp missing trp'.
              internal_include_handler n e (use_lock h) repos trp configfile trp False False
                = Some (Inr (block, missing, trp'))) (top_files h) blocks"
    by simp
next
  have "resolve 3 project_env (project_handler [''/w/a.yml'']) Map.empty
       = Some (Inr ([loaded ''/w/b.yml'' [] False False,
                     loaded ''/w/a.yml''
                       [VStr ''b.yml'', VMap [(''repo'', VStr ''x''), (''file'', VStr ''c.yml'')]]
                       False False],
                    [VStr ''x''], VStr ''/w''))"
    by code_simp
  from resolve_mono[OF this]
  show "resolve (3 + k) project_env (project_handler [''/w/a.yml'']) Map.empty
       = Some (Inr ([loaded ''/w/b.yml'' [] False False,
                     loaded ''/w/a.yml''
                       [VStr ''b.yml'', VMap [(''repo'', VStr ''x''), (''file'', VStr ''c.yml'')]]
                       False False],
                    [VStr ''x''], VStr ''/w''))" .
next
  have "resolve 3 project_env (project_handler [''/w/a.yml'']) [''x'' \<mapsto> ''/x'']
       = Some (Inr ([loaded ''/w/b.yml'' [] False False,
                     loaded ''/x/c.yml'' [] False True,
                     loaded ''/w/a.yml''
                       [VStr ''b.yml'', VMap [(''repo'', VStr ''x''), (''file'', VStr ''c.yml'')]]
                       False False],
                    [], VStr ''/w''))"
    by code_simp
  from resolve_mono[OF this]
  show "resolve (3 + k) project_env (project_handler [''/w/a.yml'']) [''x'' \<mapsto> ''/x'']
       = Some (Inr ([loaded ''/w/b.yml'' [] False False,
                     loaded ''/x/c.yml'' [] False True,
                     loaded ''/w/a.yml''
                       [VStr ''b.yml'', VMap [(''repo'', VStr ''x''), (''file'', VStr ''c.yml'')]]
                       False False],
                    [], VStr ''/w''))" .
qed

theorem resolve_depth_first_witness:
  "internal_include_handler (Suc 2) project_env True [''x'' \<mapsto> ''/x''] (VStr ''/w'') ''/w/a.yml''
      (VStr ''/w'') False False
     = Some (Inr ([loaded ''/w/b.yml'' [] False False,
                   loaded ''/x/c.yml'' [] False True,
                   loaded ''/w/a.yml''
                     [VStr ''b.yml'', VMap [(''repo'', VStr ''x''), (''file'', VStr ''c.yml'')]]
                     False False],
                  [], VStr ''/w''))
   \<and> (\<exists>cur lockdocs incs blocks.
         load_config project_env ''/w/a.yml'' False False = Inr cur \<and> filename cur = ''/w/a.yml''
         \<and> header_includes (config cur) = Inr incs
         \<and> [loaded ''/w/b.yml'' [] False False,
            loaded ''/x/c.yml'' [] False True,
            loaded ''/w/a.yml''
              [VStr ''b.yml'', VMap [(''repo'', VStr ''x''), (''file'', VStr ''c.yml'')]]
              False False] = lockdocs @ concat blocks @ [cur]
         \<and> list_all2 (\<lambda>inc block.
              block_of (internal_include_handler 2 project_env True [''x'' \<mapsto> ''/x''])
                (include_target project_env [''x'' \<mapsto> ''/x''] ''/w/a.yml''
                   (if truthy (src_dir cur) then src_dir cur else VStr ''/w'') False inc)
                block) incs blocks
         \<and> (if True \<and> path_exists project_env (get_lockfile ''/w/a.yml'')
            then \<exists>m t. internal_include_handler 2 project_env True [''x'' \<mapsto> ''/x''] (VStr ''/w'')
                          (get_lockfile ''/w/a.yml'') (VStr ''/w'') True False
                         = Some (Inr (lockdocs, m, t))
            else lockdocs = []))"
proof -
  have h: "internal_include_handler (Suc 2) project_env True [''x'' \<mapsto> ''/x''] (VStr ''/w'') ''/w/a.yml''
      (VStr ''/w'') False False
     = Some (Inr ([loaded ''/w/b.yml'' [] False False,
                   loaded ''/x/c.yml'' [] False True,
                   loaded ''/w/a.yml''
                     [VStr ''b.yml'', VMap [(''repo'', VStr ''x''), (''file'', VStr ''c.yml'')]]
                     False False],
                  [], VStr ''/w''))"
    by code_simp
  show ?thesis
    by (rule conjI[OF h]) (rule resolve_depth_first[THEN conjunct1, rule_format, OF h])
qed


text \<open>
  C5, as amended.  The handler treats a lock document like any other document: when
  locking is on and a visit of a lock document succeeds, the lock document's own lock
  sibling has been visited first if it exists (its documents, ending with the sibling
  flagged as a lock file, open the result), and no document of the result comes from
  that sibling if it does not exist.
\<close>

theorem lock_sibling_followed:
  assumes "internal_include_handler (Suc n) e True repos trp lockfile rp True ex
             = Some (Inr (cfgs, miss, trp'))"
  shows "(path_exists e (get_lockfile lockfile) \<longrightarrow>
            (\<exists>docs sibling m t.
               internal_include_handler n e True repos trp (get_lockfile lockfile) rp True ex
                 = Some (Inr (docs @ [sibling], m, t))
               \<and> filename sibling = get_lockfile lockfile \<and> is_lockfile sibling
               \<and> prefix (docs @ [sibling]) cfgs))
       \<and> (\<not> path_exists e (get_lockfile lockfile) \<longrightarrow>
            (\<forall>c \<in> set cfgs. filename c \<noteq> get_lockfile lockfile))"
proof (intro conjI impI)
  assume ex: "path_exists e (get_lockfile lockfile)"
  from handler_shape[OF assms] ex obtain cur lockdocs blocks m t where
    c: "cfgs = lockdocs @ concat blocks @ [cur]"
    and l: "internal_include_handler n e True repos trp (get_lockfile lockfile) rp True ex
              = Some (Inr (lockdocs, m, t))"
    by auto
  from handler_last[OF l] obtain docs sibling where
    "lockdocs = docs @ [sibling]" "filename sibling = get_lockfile lockfile" "is_lockfile sibling"
    by auto
  with c l show "\<exists>docs sibling m t.
               internal_include_handler n e True repos trp (get_lockfile lockfile) rp True ex
                 = Some (Inr (docs @ [sibling], m, t))
               \<and> filename sibling = get_lockfile lockfile \<and> is_lockfile sibling
               \<and> prefix (docs @ [sibling]) cfgs"
    by (intro exI[of _ docs] exI[of _ sibling] exI[of _ m] exI[of _ t]) simp
next
  assume nex: "\<not> path_exists e (get_lockfile lockfile)"
  show "\<forall>c \<in> set cfgs. filename c \<noteq> get_lockfile lockfile"
  proof
    fix c assume "c \<in> set cfgs"
    from handler_docs_exist[OF assms this] nex show "filename c \<noteq> get_lockfile lockfile"
      by auto
  qed
qed

theorem lock_sibling_followed_witness:
  "internal_include_handler (Suc 2) project_env True Map.empty (VStr ''/w'') ''/w/l.lock.yml''
       (VStr ''/w'') True False
     = Some (Inr ([loaded ''/w/l.lock.lock.yml'' [] True False,
                   loaded ''/w/l.lock.yml'' [] True False], [], VStr ''/w''))
   \<and> path_exists project_env (get_lockfile ''/w/l.lock.yml'')
   \<and> get_lockfile ''/w/l.lock.yml'' = ''/w/l.lock.lock.yml''
   \<and> (\<exists>docs sibling m t.
          internal_include_handler 2 project_env True Map.empty (VStr ''/w'')
              (get_lockfile ''/w/l.lock.yml'') (VStr ''/w'') True False
            = Some (Inr (docs @ [sibling], m, t))
          \<and> filename sibling = get_lockfile ''/w/l.lock.yml'' \<and> is_lockfile sibling
          \<and> prefix (docs @ [sibling])
                [loaded ''/w/l.lock.lock.yml'' [] True False,
                 loaded ''/w/l.lock.yml'' [] True False])"
proof -
  have h: "internal_include_handler (Suc 2) project_env True Map.empty (VStr ''/w'') ''/w/l.lock.yml''
       (VStr ''/w'') True False
     = Some (Inr ([loaded ''/w/l.lock.lock.yml'' [] True False,
                   loaded ''/w/l.lock.yml'' [] True False], [], VStr ''/w''))"
    by code_simp
  have p: "path_exists project_env (get_lockfile ''/w/l.lock.yml'')" by code_simp
  have g: "get_lockfile ''/w/l.lock.yml'' = ''/w/l.lock.lock.yml''" by code_simp
  from lock_sibling_followed[OF h, THEN conjunct1, rule_format, OF p] h p g
  show ?thesis by (intro conjI)
qed

text \<open>
  The claim as stated fails: \<^verbatim>\<open>l.lock.yml\<close>, injected for \<^verbatim>\<open>l.yml\<close>, has the
  sibling \<^verbatim>\<open>l.lock.lock.yml\<close>, and that file is visited.
\<close>

theorem lock_of_lock_counterexample:
  "resolve 3 project_env (project_handler [''/w/l.yml'']) Map.empty
     = Some (Inr ([loaded ''/w/l.lock.lock.yml'' [] True False,
                   loaded ''/w/l.lock.yml'' [] True False,
                   loaded ''/w/l.yml'' [] False False], [], VStr ''/w''))"
  by code_simp

text \<open>
  Behind the validation: what the loop over the includes does with a mapping-shaped
  include without a \<^verbatim>\<open>file\<close> key, in a document that a validator has let through
  (the includes before it resolved).  If its repository is in \<open>repos\<close>, the loop
  fails with \<open>IncludeError\<close>; if not, the repository key is appended to the missing
  repositories and the loop goes on.
\<close>

lemma include_loop_without_file:
  assumes "map_of incl ''file'' = None"
    and "include_loop rec e repos cur rp ex pre acc = Some (Inr (configs, missing, trp))"
  shows "(\<forall>dir. repos_get repos (dict_get incl ''repo'') = Inr (Some dir) \<longrightarrow>
            include_loop rec e repos cur rp ex (pre @ VMap incl # rest) acc
              = Some (Inl IncludeError))
       \<and> (repos_get repos (dict_get incl ''repo'') = Inr None \<longrightarrow>
            include_loop rec e repos cur rp ex (pre @ VMap incl # rest) acc
              = include_loop rec e repos cur rp ex rest
                  (configs, missing @ [dict_get incl ''repo''], trp))"
  using assms by (simp add: include_loop_append Let_def)






section \<open>Properties of the missing repositories\<close>

lemma py_in_simps [simp]:
  "py_in y [] = False"
  "py_in y (x # xs) = (key_norm y = key_norm x \<or> py_in y xs)"
  "py_in y (xs @ ys) = (py_in y xs \<or> py_in y ys)"
  by (auto simp: py_in_def)

lemma append_new_first_seen:
  "append_new acc xs = acc @ filter (\<lambda>y. \<not> py_in y acc) (first_seen xs)"
proof (induction xs arbitrary: acc)
  case Nil
  then show ?case by simp
next
  case (Cons x xs)
  show ?case
  proof (cases "py_in x acc")
    case True
    have "filter (\<lambda>y. \<not> py_in y acc) (filter (\<lambda>y. key_norm y \<noteq> key_norm x) (first_seen xs))
          = filter (\<lambda>y. \<not> py_in y acc) (first_seen xs)"
      using True by (auto simp: py_in_def intro!: filter_cong)
    with True show ?thesis by (simp add: Cons.IH)
  next
    case False
    have "filter (\<lambda>y. \<not> py_in y (acc @ [x])) (first_seen xs)
          = filter (\<lambda>y. \<not> py_in y acc) (filter (\<lambda>y. key_norm y \<noteq> key_norm x) (first_seen xs))"
      by (auto intro!: filter_cong)
    with False show ?thesis by (simp add: Cons.IH)
  qed
qed

lemma ordered_dedup_first_seen: "ordered_dedup xs = first_seen xs"
  by (simp add: ordered_dedup_def append_new_first_seen)

lemma py_in_filter: "py_in y (filter (\<lambda>z. key_norm z \<noteq> k) xs) = (key_norm y \<noteq> k \<and> py_in y xs)"
  by (auto simp: py_in_def)

lemma py_in_first_seen [simp]: "py_in y (first_seen xs) = py_in y xs"
  by (induction xs) (auto simp: py_in_filter)

lemma first_seen_filter:
  "first_seen (filter (\<lambda>z. key_norm z \<noteq> k) xs) = filter (\<lambda>z. key_norm z \<noteq> k) (first_seen xs)"
  by (induction xs) (auto intro!: filter_cong)

lemma first_seen_append:
  "first_seen (a @ b) = first_seen a @ filter (\<lambda>y. \<not> py_in y a) (first_seen b)"
proof (induction a)
  case Nil
  then show ?case by simp
next
  case (Cons x a)
  have "filter (\<lambda>y. key_norm y \<noteq> key_norm x) (filter (\<lambda>y. \<not> py_in y a) (first_seen b))
        = filter (\<lambda>y. \<not> py_in y (x # a)) (first_seen b)"
    by (auto intro!: filter_cong)
  with Cons show ?case by simp
qed

lemma distinct_first_seen: "distinct (map key_norm (first_seen xs))"
  by (induction xs) (auto simp: distinct_map_filter)

lemma first_seen_distinct: "distinct (map key_norm xs) \<Longrightarrow> first_seen xs = xs"
proof (induction xs)
  case Nil
  then show ?case by simp
next
  case (Cons x xs)
  then have "filter (\<lambda>y. key_norm y \<noteq> key_norm x) xs = xs"
    by (intro filter_True) (auto simp: image_iff)
  with Cons show ?case by simp
qed

lemma first_seen_idem [simp]: "first_seen (first_seen xs) = first_seen xs"
  by (rule first_seen_distinct) (rule distinct_first_seen)

lemma py_in_cong: "first_seen a = first_seen a' \<Longrightarrow> py_in y a = py_in y a'"
  by (metis py_in_first_seen)

lemma first_seen_append_cong:
  assumes "first_seen a = first_seen a'" and "first_seen b = first_seen b'"
  shows "first_seen (a @ b) = first_seen (a' @ b')"
  using assms py_in_cong[OF assms(1)] by (simp add: first_seen_append)

lemma same_up_to_cases:
  assumes "same_up_to R x y"
  obtains "x = None" "y = None"
  | a where "x = Some (Inl a)" "y = Some (Inl a)"
  | c m1 m2 t where "x = Some (Inr (c, m1, t))" "y = Some (Inr (c, m2, t))" "R m1 m2"
  using assms by (cases "(R, x, y)" rule: same_up_to.cases) auto

lemma include_loop_related:
  assumes H: "\<And>t f rp lk ex. same_up_to same_seen (rec1 t f rp lk ex) (rec2 t f rp lk ex)"
  shows "first_seen m1 = first_seen m2 \<Longrightarrow>
     same_up_to same_seen (include_loop rec1 e repos cur rp ex incs (c, m1, t))
                          (include_loop rec2 e repos cur rp ex incs (c, m2, t))"
proof (induction incs arbitrary: c m1 m2 t)
  case Nil
  then show ?case by simp
next
  case (Cons inc incs)
  show ?case
  proof (cases inc)
    case (VStr s)
    show ?thesis
    proof (cases "local_include_file e cur rp s")
      case (Inl err)
      with VStr show ?thesis by simp
    next
      case (Inr f)
      from H[of t f rp False ex] show ?thesis
      proof (cases rule: same_up_to_cases)
        case 1
        with VStr Inr show ?thesis by simp
      next
        case (2 a)
        with VStr Inr show ?thesis by simp
      next
        case (3 c' r1 r2 t')
        from first_seen_append_cong[OF Cons.prems 3(3)]
        have "same_up_to same_seen (include_loop rec1 e repos cur rp ex incs (c @ c', m1 @ r1, t'))
                          (include_loop rec2 e repos cur rp ex incs (c @ c', m2 @ r2, t'))"
          by (rule Cons.IH)
        with VStr Inr 3 show ?thesis by simp
      qed
    qed
  next
    case (VMap im)
    show ?thesis
    proof (cases "repos_get repos (dict_get im ''repo'')")
      case (Inl err)
      with VMap show ?thesis by (simp add: Let_def)
    next
      case (Inr d)
      show ?thesis
      proof (cases d)
        case None
        from first_seen_append_cong[OF Cons.prems refl, of "[dict_get im ''repo'']"]
        have "same_up_to same_seen
                (include_loop rec1 e repos cur rp ex incs (c, m1 @ [dict_get im ''repo''], t))
                (include_loop rec2 e repos cur rp ex incs (c, m2 @ [dict_get im ''repo''], t))"
          by (rule Cons.IH)
        with VMap Inr None show ?thesis by (simp add: Let_def)
      next
        case (Some dir)
        show ?thesis
        proof (cases "\<exists>f. map_of im ''file'' = Some (VStr f)")
          case False
          with VMap Inr Some show ?thesis
            by (auto simp: Let_def split: option.splits cfgval.splits)
        next
          case True
          then obtain f where f: "map_of im ''file'' = Some (VStr f)" by blast
          let ?a = "os_path_abspath (cwd e) dir"
          from H[of t "os_path_join ?a f" "VStr ?a" False True] show ?thesis
          proof (cases rule: same_up_to_cases)
            case 1
            with VMap Inr Some f show ?thesis by (simp add: Let_def)
          next
            case (2 a)
            with VMap Inr Some f show ?thesis by (simp add: Let_def)
          next
            case (3 c' r1 r2 t')
            from first_seen_append_cong[OF Cons.prems 3(3)]
            have "same_up_to same_seen (include_loop rec1 e repos cur rp ex incs (c @ c', m1 @ r1, t'))
                          (include_loop rec2 e repos cur rp ex incs (c @ c', m2 @ r2, t'))"
              by (rule Cons.IH)
            with VMap Inr Some f 3 show ?thesis by (simp add: Let_def)
          qed
        qed
      qed
    qed
  qed (use Cons.IH[OF Cons.prems] in auto)
qed

lemma handler_related:
  "same_up_to (\<lambda>missing refs. missing = first_seen refs)
     (internal_include_handler n e ul repos trp fname rp lk ex)
     (unresolved_references n e ul repos trp fname rp lk ex)"
proof (induction n arbitrary: trp fname rp lk ex)
  case 0
  then show ?case by simp
next
  case (Suc n)
  have weak: "same_up_to same_seen (internal_include_handler n e ul repos t f r l x)
                (unresolved_references n e ul repos t f r l x)" for t f r l x
    using Suc.IH[of t f r l x] by (cases rule: same_up_to_cases) auto
  show ?case
  proof (cases "load_config e fname lk ex")
    case (Inl err)
    then show ?thesis by simp
  next
    case (Inr cur)
    let ?L1 = "if ul \<and> path_exists e (get_lockfile fname)
                 then internal_include_handler n e ul repos trp (get_lockfile fname) rp True ex
                 else Some (Inr ([], [], trp))"
    let ?L2 = "if ul \<and> path_exists e (get_lockfile fname)
                 then unresolved_references n e ul repos trp (get_lockfile fname) rp True ex
                 else Some (Inr ([], [], trp))"
    have "same_up_to same_seen ?L1 ?L2"
    proof (cases "ul \<and> path_exists e (get_lockfile fname)")
      case True
      show ?thesis unfolding if_P[OF True] by (rule weak)
    next
      case False
      show ?thesis unfolding if_not_P[OF False] by simp
    qed
    then show ?thesis
    proof (cases rule: same_up_to_cases)
      case 1
      with Inr show ?thesis by simp
    next
      case (2 a)
      with Inr show ?thesis by simp
    next
      case (3 ld lm1 lm2 lt)
      show ?thesis
      proof (cases "header_includes (config cur)")
        case (Inl err)
        with Inr 3 show ?thesis by (simp add: Let_def)
      next
        case hi: (Inr incs)
        let ?rp = "if truthy (src_dir cur) then src_dir cur else rp"
        let ?t2 = "if truthy (src_dir cur) then src_dir cur else lt"
        have "same_up_to same_seen
           (include_loop (internal_include_handler n e ul repos) e repos fname ?rp ex incs (ld, lm1, ?t2))
           (include_loop (unresolved_references n e ul repos) e repos fname ?rp ex incs (ld, lm2, ?t2))"
          by (rule include_loop_related[OF weak 3(3)])
        then show ?thesis
        proof (cases rule: same_up_to_cases)
          case 1
          with Inr 3(1,2) hi show ?thesis by (simp add: Let_def)
        next
          case (2 a)
          with Inr 3(1,2) hi show ?thesis by (simp add: Let_def)
        next
          case i: (3 c' r1 r2 t')
          with Inr 3(1,2) hi show ?thesis
            by (simp add: Let_def ordered_dedup_first_seen)
        qed
      qed
    qed
  qed
qed

lemma append_new_first_seen_append:
  "append_new (first_seen a) (first_seen b) = first_seen (a @ b)"
  by (simp add: append_new_first_seen first_seen_append)

lemma top_files_loop_related:
  "same_up_to (\<lambda>missing refs. missing = first_seen refs)
     (top_files_loop n e ul repos tops (c, first_seen m, t))
     (references_loop n e ul repos tops (c, m, t))"
proof (induction tops arbitrary: c m t)
  case Nil
  then show ?case by simp
next
  case (Cons f tops)
  from handler_related[of n e ul repos t f t False False] show ?case
  proof (cases rule: same_up_to_cases)
    case 1
    then show ?thesis by simp
  next
    case (2 a)
    then show ?thesis by simp
  next
    case (3 c' m1 m2 t')
    with Cons.IH[of "c @ c'" "m @ m2" t'] show ?thesis
      by (simp add: append_new_first_seen_append)
  qed
qed

text \<open>
  C8.  The missing repositories a successful \<open>resolve\<close> returns contain no key twice
  (nor two keys that Python takes for equal), and they are the unresolved references of
  the traversal, over all documents and all top files, each kept at its first occurrence.
\<close>

theorem missing_repos_first_seen:
  assumes "resolve n e h repos = Some (Inr (docs, missing, trp))"
  shows "distinct (map key_norm missing) \<and> distinct missing
       \<and> (\<exists>refs. resolve_references n e h repos = Some (Inr (docs, refs, trp))
                  \<and> missing = first_seen refs)"
proof -
  from top_files_loop_related[of n e "use_lock h" repos "top_files h" "[]" "[]" "top_repo_path h"]
  have "same_up_to (\<lambda>missing refs. missing = first_seen refs)
          (resolve n e h repos) (resolve_references n e h repos)"
    by (simp add: resolve_def resolve_references_def)
  then obtain refs where r: "resolve_references n e h repos = Some (Inr (docs, refs, trp))"
    "missing = first_seen refs"
    using assms by (cases rule: same_up_to_cases) auto
  have "distinct (map key_norm missing)" unfolding r(2) by (rule distinct_first_seen)
  moreover from this have "distinct missing" by (simp add: distinct_map)
  ultimately show ?thesis using r by blast
qed

theorem missing_repos_first_seen_witness:
  "resolve 3 project_env (project_handler [''/w/m.yml'', ''/w/a.yml'']) Map.empty
     = Some (Inr ([loaded ''/w/m2.yml''
                     [VMap [(''repo'', VStr ''x''), (''file'', VStr ''c.yml'')],
                      VMap [(''repo'', VStr ''z''), (''file'', VStr ''s.yml'')]] False False,
                   loaded ''/w/m.yml''
                     [VMap [(''repo'', VStr ''y''), (''file'', VStr ''q.yml'')],
                      VStr ''m2.yml'',
                      VMap [(''repo'', VStr ''x''), (''file'', VStr ''c.yml'')],
                      VMap [(''repo'', VStr ''y''), (''file'', VStr ''r.yml'')]] False False,
                   loaded ''/w/b.yml'' [] False False,
                   loaded ''/w/a.yml''
                     [VStr ''b.yml'', VMap [(''repo'', VStr ''x''), (''file'', VStr ''c.yml'')]]
                     False False],
                  [VStr ''y'', VStr ''x'', VStr ''z''], VStr ''/w''))
   \<and> resolve_references 3 project_env (project_handler [''/w/m.yml'', ''/w/a.yml'']) Map.empty
     = Some (Inr ([loaded ''/w/m2.yml''
                     [VMap [(''repo'', VStr ''x''), (''file'', VStr ''c.yml'')],
                      VMap [(''repo'', VStr ''z''), (''file'', VStr ''s.yml'')]] False False,
                   loaded ''/w/m.yml''
                     [VMap [(''repo'', VStr ''y''), (''file'', VStr ''q.yml'')],
                      VStr ''m2.yml'',
                      VMap [(''repo'', VStr ''x''), (''file'', VStr ''c.yml'')],
                      VMap [(''repo'', VStr ''y''), (''file'', VStr ''r.yml'')]] False False,
                   loaded ''/w/b.yml'' [] False False,
                   loaded ''/w/a.yml''
                     [VStr ''b.yml'', VMap [(''repo'', VStr ''x''), (''file'', VStr ''c.yml'')]]
                     False False],
                  [VStr ''y'', VStr ''x'', VStr ''z'', VStr ''x'', VStr ''y'', VStr ''x''],
                  VStr ''/w''))
   \<and> (distinct (map key_norm [VStr ''y'', VStr ''x'', VStr ''z''])
      \<and> distinct [VStr ''y'', VStr ''x'', VStr ''z'']
      \<and> (\<exists>refs. resolve_references 3 project_env (project_handler [''/w/m.yml'', ''/w/a.yml''])
                 Map.empty
              = Some (Inr ([loaded ''/w/m2.yml''
                     [VMap [(''repo'', VStr ''x''), (''file'', VStr ''c.yml'')],
                      VMap [(''repo'', VStr ''z''), (''file'', VStr ''s.yml'')]] False False,
                   loaded ''/w/m.yml''
                     [VMap [(''repo'', VStr ''y''), (''file'', VStr ''q.yml'')],
                      VStr ''m2.yml'',
                      VMap [(''repo'', VStr ''x''), (''file'', VStr ''c.yml'')],
                      VMap [(''repo'', VStr ''y''), (''file'', VStr ''r.yml'')]] False False,
                   loaded ''/w/b.yml'' [] False False,
                   loaded ''/w/a.yml''
                     [VStr ''b.yml'', VMap [(''repo'', VStr ''x''), (''file'', VStr ''c.yml'')]]
                     False False], refs, VStr ''/w''))
              \<and> [VStr ''y'', VStr ''x'', VStr ''z''] = first_seen refs))"
proof (intro conjI)
  show h: "resolve 3 project_env (project_handler [''/w/m.yml'', ''/w/a.yml'']) Map.empty
     = Some (Inr ([loaded ''/w/m2.yml''
                     [VMap [(''repo'', VStr ''x''), (''file'', VStr ''c.yml'')],
                      VMap [(''repo'', VStr ''z''), (''file'', VStr ''s.yml'')]] False False,
                   loaded ''/w/m.yml''
                     [VMap [(''repo'', VStr ''y''), (''file'', VStr ''q.yml'')],
                      VStr ''m2.yml'',
                      VMap [(''repo'', VStr ''x''), (''file'', VStr ''c.yml'')],
                      VMap [(''repo'', VStr ''y''), (''file'', VStr ''r.yml'')]] False False,
                   loaded ''/w/b.yml'' [] False False,
                   loaded ''/w/a.yml''
                     [VStr ''b.yml'', VMap [(''repo'', VStr ''x''), (''file'', VStr ''c.yml'')]]
                     False False],
                  [VStr ''y'', VStr ''x'', VStr ''z''], VStr ''/w''))"
    by code_simp
  note t = missing_repos_first_seen[OF h]
  show "distinct (map key_norm [VStr ''y'', VStr ''x'', VStr ''z''])" by (rule t[THEN conjunct1])
  show "distinct [VStr ''y'', VStr ''x'', VStr ''z'']" by (rule t[THEN conjunct2, THEN conjunct1])
  show "\<exists>refs. resolve_references 3 project_env (project_handler [''/w/m.yml'', ''/w/a.yml''])
                 Map.empty
              = Some (Inr ([loaded ''/w/m2.yml''
                     [VMap [(''repo'', VStr ''x''), (''file'', VStr ''c.yml'')],
                      VMap [(''repo'', VStr ''z''), (''file'', VStr ''s.yml'')]] False False,
                   loaded ''/w/m.yml''
                     [VMap [(''repo'', VStr ''y''), (''file'', VStr ''q.yml'')],
                      VStr ''m2.yml'',
                      VMap [(''repo'', VStr ''x''), (''file'', VStr ''c.yml'')],
                      VMap [(''repo'', VStr ''y''), (''file'', VStr ''r.yml'')]] False False,
                   loaded ''/w/b.yml'' [] False False,
                   loaded ''/w/a.yml''
                     [VStr ''b.yml'', VMap [(''repo'', VStr ''x''), (''file'', VStr ''c.yml'')]]
                     False False], refs, VStr ''/w''))
              \<and> [VStr ''y'', VStr ''x'', VStr ''z''] = first_seen refs"
    by (rule t[THEN conjunct2, THEN conjunct2])
  show "resolve_references 3 project_env (project_handler [''/w/m.yml'', ''/w/a.yml'']) Map.empty
     = Some (Inr ([loaded ''/w/m2.yml''
                     [VMap [(''repo'', VStr ''x''), (''file'', VStr ''c.yml'')],
                      VMap [(''repo'', VStr ''z''), (''file'', VStr ''s.yml'')]] False False,
                   loaded ''/w/m.yml''
                     [VMap [(''repo'', VStr ''y''), (''file'', VStr ''q.yml'')],
                      VStr ''m2.yml'',
                      VMap [(''repo'', VStr ''x''), (''file'', VStr ''c.yml'')],
                      VMap [(''repo'', VStr ''y''), (''file'', VStr ''r.yml'')]] False False,
                   loaded ''/w/b.yml'' [] False False,
                   loaded ''/w/a.yml''
                     [VStr ''b.yml'', VMap [(''repo'', VStr ''x''), (''file'', VStr ''c.yml'')]]
                     False False],
                  [VStr ''y'', VStr ''x'', VStr ''z'', VStr ''x'', VStr ''y'', VStr ''x''],
                  VStr ''/w''))"
    by code_simp
qed


section \<open>Properties of the lock plugin\<close>

















text \<open>
  An absolute lock file is inside the checkout \<^verbatim>\<open>/w/r2\<close> when its parts begin with
  those of the checkout; it is not relative to the empty path or to \<^verbatim>\<open>.\<close>, and a
  repository there does not make it external.
\<close>

lemma path_is_relative_to_examples:
  "path_is_relative_to ''/w/r2/a.lock.yml'' ''/w/r2''
   \<and> \<not> path_is_relative_to ''/w/r22/a.lock.yml'' ''/w/r2''
   \<and> \<not> path_is_relative_to ''/w/a.lock.yml'' []
   \<and> \<not> path_is_relative_to ''/w/a.lock.yml'' ''.''
   \<and> \<not> path_is_relative_to ''/w/a.lock.yml'' ''w''
   \<and> \<not> path_is_relative_to ''w/a.lock.yml'' ''/w''
   \<and> path_is_relative_to ''w/a.lock.yml'' []
   \<and> path_is_relative_to ''w/a.lock.yml'' ''./w''
   \<and> \<not> is_external_lockfile [(''r0'', repo_r1\<lparr>path := ''.''\<rparr>)]
          (lock_document ''/w/a.lock.yml'' ''AAA'')
   \<and> \<not> is_external_lockfile [(''r0'', repo_r1\<lparr>path := []\<rparr>)]
          (lock_document ''/w/a.lock.yml'' ''AAA'')"
  by code_simp

lemma update_lockfile_repo_at_dot:
  "update_lockfile [(''r1'', repo_r1\<lparr>path := ''.''\<rparr>)] (lock_document ''/w/a.lock.yml'' ''AAA'')
     [(''r1'', repo_r1\<lparr>path := ''.''\<rparr>)]
   = Inr (lock_document ''/w/a.lock.yml'' ''BBB'', [],
          [InfoUpdating ''r1'' (VStr ''AAA'') (Some ''BBB''),
           InfoUpdatingLockfile ''/w/a.lock.yml'',
           DumpConfig (lock_body ''BBB'') ''/w/a.lock.yml'' ''yaml''])"
  by code_simp




section \<open>Properties of the deep merger on the heap\<close>

lemma only_at_refl: "only_at a h h"
  by (simp add: only_at_def)

lemma only_at_trans: "only_at a h h1 \<Longrightarrow> only_at a h1 h2 \<Longrightarrow> only_at a h h2"
  by (auto simp: only_at_def)

lemma only_at_setitem: "only_at a h (setitem h a k v)"
  by (auto simp: only_at_def setitem_def split: option.splits)

lemma prefix_only_at: "prefix h h' \<Longrightarrow> only_at a h h'"
  by (auto simp: only_at_def prefix_def nth_append)

lemma prefix_nthI:
  "length h \<le> length h' \<Longrightarrow> (\<And>b. b < length h \<Longrightarrow> h' ! b = h ! b) \<Longrightarrow> prefix h h'"
proof -
  assume l: "length h \<le> length h'" and n: "\<And>b. b < length h \<Longrightarrow> h' ! b = h ! b"
  have "take (length h) h' = h"
    by (rule nth_equalityI) (use l n in auto)
  then have "h' = h @ drop (length h) h'" by (metis append_take_drop_id)
  then show ?thesis by (metis prefixI)
qed

lemma assign_keys_heap_frame:
  "assign_keys_heap a upd keys h = Some (r, h') \<Longrightarrow> only_at a h h'"
proof (induction keys arbitrary: h)
  case Nil
  then show ?case by (simp add: only_at_refl)
next
  case (Cons k keys)
  show ?case
  proof (cases "\<exists>u val. dict_at h upd = Some u \<and> map_of u k = Some val")
    case True
    then obtain u val where "dict_at h upd = Some u" "map_of u k = Some val" by blast
    with Cons.prems have "assign_keys_heap a upd keys (setitem h a k val) = Some (r, h')" by simp
    from only_at_trans[OF only_at_setitem Cons.IH[OF this]] show ?thesis .
  next
    case False
    with Cons.prems have "h' = h" by (auto split: option.splits)
    then show ?thesis by (simp add: only_at_refl)
  qed
qed

lemma merge_keys_heap_frame:
  assumes R: "\<And>h x y r h'. rec h x y = Some (r, h') \<Longrightarrow> prefix h h'"
  shows "merge_keys_heap rec a upd keys h = Some (r, h') \<Longrightarrow> only_at a h h'"
proof (induction keys arbitrary: h)
  case Nil
  then show ?case by (simp add: only_at_refl)
next
  case (Cons k keys)
  show ?case
  proof (cases "\<exists>u val d. dict_at h upd = Some u \<and> map_of u k = Some val \<and> dict_at h (HRef a) = Some d")
    case False
    with Cons.prems have "h' = h" by (auto split: option.splits)
    then show ?thesis by (simp add: only_at_refl)
  next
    case True
    then obtain u val d where
      u: "dict_at h upd = Some u" "map_of u k = Some val" "dict_at h (HRef a) = Some d" by blast
    show ?thesis
    proof (cases "\<exists>ds. map_of d k = Some ds \<and> dict_at h ds \<noteq> None \<and> dict_at h val \<noteq> None")
      case False
      with Cons.prems u have "merge_keys_heap rec a upd keys (setitem h a k val) = Some (r, h')"
        by (auto split: option.splits)
      from only_at_trans[OF only_at_setitem Cons.IH[OF this]] show ?thesis .
    next
      case True
      then obtain ds where ds: "map_of d k = Some ds" "dict_at h ds \<noteq> None" "dict_at h val \<noteq> None"
        by blast
      show ?thesis
      proof (cases "rec h ds val")
        case None
        with Cons.prems u ds show ?thesis by simp
      next
        case (Some res)
        obtain x h1 where res: "res = (x, h1)" by (cases res)
        from R[OF Some[unfolded res]] have p: "only_at a h h1" by (rule prefix_only_at)
        show ?thesis
        proof (cases x)
          case (Inl err)
          with Cons.prems u ds Some res have "h' = h1" by simp
          with p show ?thesis by simp
        next
          case (Inr ret)
          with Cons.prems u ds Some res
          have "merge_keys_heap rec a upd keys (setitem h1 a k ret) = Some (r, h')" by simp
          from only_at_trans[OF p only_at_trans[OF only_at_setitem Cons.IH[OF this]]]
          show ?thesis .
        qed
      qed
    qed
  qed
qed

lemma only_at_fresh_prefix:
  assumes "only_at (length h) (h @ [ob]) h'"
  shows "prefix h h'" and "length h < length h'"
proof -
  from assms have l: "length h < length h'" by (simp add: only_at_def)
  show "length h < length h'" by (rule l)
  show "prefix h h'"
  proof (rule prefix_nthI)
    show "length h \<le> length h'" using l by simp
  next
    fix b assume b: "b < length h"
    with assms have "h' ! b = (h @ [ob]) ! b" by (simp add: only_at_def)
    with b show "h' ! b = h ! b" by (simp add: nth_append)
  qed
qed

lemma dict_merge_heap_frame:
  "dict_merge_heap n h dest upd = Some (res, h') \<Longrightarrow>
   prefix h h' \<and> (\<forall>r. res = Inr r \<longrightarrow> r = HRef (length h) \<and> length h < length h')"
proof (induction n arbitrary: h dest upd res h')
  case 0
  then show ?case by simp
next
  case (Suc n)
  show ?case
  proof (cases "\<exists>d u. dict_at h dest = Some d \<and> dict_at h upd = Some u")
    case False
    with Suc.prems have "h' = h" "res = Inl IncludeError"
      by (auto split: option.splits)
    then show ?thesis by simp
  next
    case True
    then obtain d u where du: "dict_at h dest = Some d" "dict_at h upd = Some u" by blast
    let ?h1 = "h @ [Dict d]"
    have "only_at (length h) ?h1 h' \<and> (\<forall>r. res = Inr r \<longrightarrow> r = HRef (length h))"
    proof (cases "set (map fst d) \<inter> set (map fst u) \<noteq> {}")
      case True
      with Suc.prems du obtain x where
        m: "merge_keys_heap (dict_merge_heap n) (length h) upd (map fst u) ?h1 = Some (x, h')"
        and r: "\<forall>r. res = Inr r \<longrightarrow> r = HRef (length h)"
        by (auto simp: Let_def split: option.splits sum.splits)
      have "only_at (length h) ?h1 h'"
        by (rule merge_keys_heap_frame[OF _ m]) (use Suc.IH in blast)
      with r show ?thesis by simp
    next
      case False
      with Suc.prems du obtain x where
        m: "assign_keys_heap (length h) upd (map fst u) ?h1 = Some (x, h')"
        and r: "\<forall>r. res = Inr r \<longrightarrow> r = HRef (length h)"
        by (auto simp: Let_def split: option.splits sum.splits)
      from assign_keys_heap_frame[OF m] r show ?thesis by simp
    qed
    with only_at_fresh_prefix[of h "Dict d" h'] show ?thesis by simp
  qed
qed

lemma reduce_from_heap_frame:
  "reduce_from_heap n h acc docs = Some (res, h') \<Longrightarrow> prefix h h'"
proof (induction docs arbitrary: h acc)
  case Nil
  then show ?case by simp
next
  case (Cons upd docs)
  from Cons.prems obtain x h1 where m: "dict_merge_heap n h acc upd = Some (x, h1)"
    by (cases "dict_merge_heap n h acc upd") auto
  from dict_merge_heap_frame[OF m] have p: "prefix h h1" by simp
  show ?case
  proof (cases x)
    case (Inl err)
    with Cons.prems m p show ?thesis by simp
  next
    case (Inr acc')
    with Cons.prems m have "reduce_from_heap n h1 acc' docs = Some (res, h')" by simp
    from Cons.IH[OF this] p show ?thesis by (rule prefix_order.trans[rotated])
  qed
qed

lemma value_of_preserved:
  assumes "closed h" and "prefix h h'"
  shows "ref_below (length h) v \<Longrightarrow> value_of k h' v = value_of k h v"
proof (induction k arbitrary: v)
  case 0
  then show ?case by simp
next
  case (Suc k)
  show ?case
  proof (cases v)
    case (HRef a)
    with Suc.prems have a: "a < length h" by simp
    from assms(2) obtain zs where h': "h' = h @ zs" by (auto simp: prefix_def)
    have e: "h' ! a = h ! a" "a < length h'" using a h' by (simp_all add: nth_append)
    from assms(1) a have c: "case h ! a of
                      Dict d \<Rightarrow> list_all (\<lambda>p. ref_below (length h) (snd p)) d
                    | Seq xs \<Rightarrow> list_all (ref_below (length h)) xs"
      by (simp add: closed_def list_all_length)
    show ?thesis
    proof (cases "h ! a")
      case (Dict d)
      with c have "\<And>p. p \<in> set d \<Longrightarrow> value_of k h' (snd p) = value_of k h (snd p)"
        by (auto simp: list_all_iff intro!: Suc.IH)
      then have m: "map (\<lambda>p. map_option (Pair (fst p)) (value_of k h' (snd p))) d
                 = map (\<lambda>p. map_option (Pair (fst p)) (value_of k h (snd p))) d"
        by (intro map_cong) auto
      from HRef a e Dict have "value_of (Suc k) h' v
          = map_option VMap (those (map (\<lambda>p. map_option (Pair (fst p)) (value_of k h' (snd p))) d))"
        by simp
      also have "\<dots> = map_option VMap
                   (those (map (\<lambda>p. map_option (Pair (fst p)) (value_of k h (snd p))) d))"
        by (simp only: m)
      also from HRef a Dict have "\<dots> = value_of (Suc k) h v" by simp
      finally show ?thesis .
    next
      case (Seq xs)
      with c have "\<And>x. x \<in> set xs \<Longrightarrow> value_of k h' x = value_of k h x"
        by (auto simp: list_all_iff intro!: Suc.IH)
      then have m: "map (value_of k h') xs = map (value_of k h) xs"
        by (intro map_cong) auto
      from HRef a e Seq have "value_of (Suc k) h' v = map_option VList (those (map (value_of k h') xs))"
        by simp
      also have "\<dots> = map_option VList (those (map (value_of k h) xs))"
        by (simp only: m)
      also from HRef a Seq have "\<dots> = value_of (Suc k) h v" by simp
      finally show ?thesis .
    qed
  qed simp_all
qed

text \<open>
  C10.  A merge step leaves every object that existed before it as it was (the heap
  after the call is the heap before it, followed by new objects), whether it returns or
  raises, and what it returns is the address of a new object.  The fold over a sequence
  of bodies leaves the heap it started from unchanged as well, so in a closed heap every
  input body stands for the same tree after the merge as before, at every depth.
\<close>

theorem merge_preserves_inputs:
  "(dict_merge_heap n h dest upd = Some (res, h') \<longrightarrow>
      prefix h h' \<and> (\<forall>r. res = Inr r \<longrightarrow> r = HRef (length h) \<and> length h < length h'))
   \<and> (reduce_merge_heap n h bodies = Some (res2, h2) \<longrightarrow>
        prefix h h2
        \<and> (closed h \<longrightarrow>
             (\<forall>b \<in> set bodies. ref_below (length h) b \<longrightarrow>
                (\<forall>k. value_of k h2 b = value_of k h b))))"
proof (intro conjI impI)
  assume "dict_merge_heap n h dest upd = Some (res, h')"
  from dict_merge_heap_frame[OF this]
  show "prefix h h'" "\<forall>r. res = Inr r \<longrightarrow> r = HRef (length h) \<and> length h < length h'"
    by simp_all
next
  assume a: "reduce_merge_heap n h bodies = Some (res2, h2)"
  show p: "prefix h h2"
  proof (cases bodies)
    case Nil
    with a show ?thesis by simp
  next
    case (Cons b bs)
    with a show ?thesis by (auto dest: reduce_from_heap_frame)
  qed
  assume c: "closed h"
  show "\<forall>b \<in> set bodies. ref_below (length h) b \<longrightarrow> (\<forall>k. value_of k h2 b = value_of k h b)"
    using value_of_preserved[OF c p] by blast
qed

theorem merge_preserves_inputs_witness:
  "dict_merge_heap 3 heap0 (HRef 0) (HRef 2)
     = Some (Inr (HRef 5),
             heap0 @ [Dict [(''a'', HRef 6), (''c'', HInt 2), (''e'', HRef 4)],
                      Dict [(''b'', HInt 1), (''d'', HInt 1)]])
   \<and> prefix heap0 (heap0 @ [Dict [(''a'', HRef 6), (''c'', HInt 2), (''e'', HRef 4)],
                             Dict [(''b'', HInt 1), (''d'', HInt 1)]])
   \<and> HRef 5 = HRef (length heap0)
   \<and> reduce_merge_heap 3 heap0 [HRef 0, HRef 2, HRef 0]
     = Some (Inr (HRef 7),
             heap0 @ [Dict [(''a'', HRef 6), (''c'', HInt 2), (''e'', HRef 4)],
                      Dict [(''b'', HInt 1), (''d'', HInt 1)],
                      Dict [(''a'', HRef 8), (''c'', HInt 2), (''e'', HRef 4)],
                      Dict [(''b'', HInt 1), (''d'', HInt 1)]])
   \<and> value_of 4 (heap0 @ [Dict [(''a'', HRef 6), (''c'', HInt 2), (''e'', HRef 4)],
                      Dict [(''b'', HInt 1), (''d'', HInt 1)]]) (HRef 5)
       = Some (VMap [(''a'', VMap [(''b'', VInt 1), (''d'', VInt 1)]), (''c'', VInt 2),
                     (''e'', VList [VMap [(''d'', VInt 1)]])])
   \<and> internal_dict_merge (VMap [(''a'', VMap [(''b'', VInt 1)]), (''c'', VInt 2)])
         (VMap [(''a'', VMap [(''d'', VInt 1)]), (''e'', VList [VMap [(''d'', VInt 1)]])])
       = Inr (VMap [(''a'', VMap [(''b'', VInt 1), (''d'', VInt 1)]), (''c'', VInt 2),
                    (''e'', VList [VMap [(''d'', VInt 1)]])])
   \<and> closed heap0 \<and> ref_below (length heap0) (HRef 2)
   \<and> value_of 4 heap0 (HRef 2)
       = Some (VMap [(''a'', VMap [(''d'', VInt 1)]), (''e'', VList [VMap [(''d'', VInt 1)]])])
   \<and> value_of 4 (heap0 @ [Dict [(''a'', HRef 6), (''c'', HInt 2), (''e'', HRef 4)],
                      Dict [(''b'', HInt 1), (''d'', HInt 1)],
                      Dict [(''a'', HRef 8), (''c'', HInt 2), (''e'', HRef 4)],
                      Dict [(''b'', HInt 1), (''d'', HInt 1)]]) (HRef 2)
       = value_of 4 heap0 (HRef 2)"
proof -
  have h: "dict_merge_heap 3 heap0 (HRef 0) (HRef 2)
     = Some (Inr (HRef 5),
             heap0 @ [Dict [(''a'', HRef 6), (''c'', HInt 2), (''e'', HRef 4)],
                      Dict [(''b'', HInt 1), (''d'', HInt 1)]])"
    by code_simp
  note t = merge_preserves_inputs[THEN conjunct1, rule_format, OF h]
  note fresh = t[THEN conjunct2, THEN spec, THEN mp, OF refl, THEN conjunct1]
  have g: "reduce_merge_heap 3 heap0 [HRef 0, HRef 2, HRef 0]
     = Some (Inr (HRef 7),
             heap0 @ [Dict [(''a'', HRef 6), (''c'', HInt 2), (''e'', HRef 4)],
                      Dict [(''b'', HInt 1), (''d'', HInt 1)],
                      Dict [(''a'', HRef 8), (''c'', HInt 2), (''e'', HRef 4)],
                      Dict [(''b'', HInt 1), (''d'', HInt 1)]])"
    by code_simp
  have c: "closed heap0" by code_simp
  have b: "ref_below (length heap0) (HRef 2)" by code_simp
  have m: "HRef 2 \<in> set [HRef 0, HRef 2, HRef 0]" by simp
  have v: "value_of 4 heap0 (HRef 2)
       = Some (VMap [(''a'', VMap [(''d'', VInt 1)]), (''e'', VList [VMap [(''d'', VInt 1)]])])"
    by code_simp
  note u = merge_preserves_inputs[THEN conjunct2, rule_format, OF g, THEN conjunct2,
      rule_format, OF c m b]
  have x: "value_of 4 (heap0 @ [Dict [(''a'', HRef 6), (''c'', HInt 2), (''e'', HRef 4)],
                      Dict [(''b'', HInt 1), (''d'', HInt 1)]]) (HRef 5)
       = Some (VMap [(''a'', VMap [(''b'', VInt 1), (''d'', VInt 1)]), (''c'', VInt 2),
                     (''e'', VList [VMap [(''d'', VInt 1)]])])"
    by code_simp
  have y: "internal_dict_merge (VMap [(''a'', VMap [(''b'', VInt 1)]), (''c'', VInt 2)])
         (VMap [(''a'', VMap [(''d'', VInt 1)]), (''e'', VList [VMap [(''d'', VInt 1)]])])
       = Inr (VMap [(''a'', VMap [(''b'', VInt 1), (''d'', VInt 1)]), (''c'', VInt 2),
                    (''e'', VList [VMap [(''d'', VInt 1)]])])"
    by code_simp
  show ?thesis
    by (intro conjI h t[THEN conjunct1] fresh g x y c b v u)
qed

end
